theory Spec2Isabelle
  imports Main "HOL-Library.Word" "HOL-Library.AList" "HOL-Library.List_Lexorder"
begin

unbundle bit_operations_syntax

section \<open>Characters, strings and byte arrays\<close>

text \<open>
  The program is compiled with \<^verbatim>\<open>UNICODE\<close>: \<^verbatim>\<open>TCHAR\<close> and \<^verbatim>\<open>wchar_t\<close> are 16-bit code
  units, \<^verbatim>\<open>ByteArray\<close> is a vector of unsigned 8-bit values and \<^verbatim>\<open>DWORD\<close> is an unsigned
  32-bit value. A \<open>wstring\<close> is the sequence of code units of a C string before its
  terminating NUL, so the values of this type that the program handles contain no NUL.
\<close>

type_synonym wchar = "16 word"
type_synonym wstring = "wchar list"
type_synonym byte = "8 word"
type_synonym ByteArray = "byte list"
type_synonym DWORD = "32 word"

definition wstr :: "string \<Rightarrow> wstring" where
  "wstr s = map (\<lambda>c. of_char c) s"

section \<open>Hexadecimal encoding\<close>

text \<open>
  \<^verbatim>\<open>TCHAR ToHex(unsigned char b)\<close>: the character of one nibble. The first argument is
  the global \<^verbatim>\<open>g_bLowerCase\<close>.
\<close>

definition ToHex_nibble :: "bool \<Rightarrow> byte \<Rightarrow> wchar" where
  "ToHex_nibble g_bLowerCase b =
     (if b \<le> 9 then 0x30 + ucast b
      else if 10 \<le> b \<and> b \<le> 15 then (if g_bLowerCase then 0x61 else 0x41) + ucast b - 10
      else (if g_bLowerCase then 0x78 else 0x58))"

text \<open>\<^verbatim>\<open>void ToHex(const ByteArray& data, LPTSTR szHex)\<close>: two characters for each byte.\<close>

fun ToHex :: "bool \<Rightarrow> ByteArray \<Rightarrow> wstring" where
  "ToHex g_bLowerCase [] = []"
| "ToHex g_bLowerCase (b # data) =
     ToHex_nibble g_bLowerCase (drop_bit 4 b) # ToHex_nibble g_bLowerCase (b AND 0x0F)
       # ToHex g_bLowerCase data"

text \<open>\<^verbatim>\<open>bool FromHex(TCHAR c, unsigned char& b)\<close>: \<open>None\<close> is the return value false.\<close>

definition FromHex_char :: "wchar \<Rightarrow> byte option" where
  "FromHex_char c =
     (if 0x30 \<le> c \<and> c \<le> 0x39 then Some (ucast (c - 0x30))
      else if 0x61 \<le> c \<and> c \<le> 0x66 then Some (10 + ucast (c - 0x61))
      else if 0x41 \<le> c \<and> c \<le> 0x46 then Some (10 + ucast (c - 0x41))
      else None)"

text \<open>
  The loop of \<^verbatim>\<open>FromHex(const TCHAR* szHex, ByteArray& buffer)\<close> over the pairs of
  characters. The result is the buffer and whether the loop ran to its end
  (\<^verbatim>\<open>i == l / 2\<close>); a character that is no hexadecimal digit breaks out of it.
\<close>

fun FromHex_loop :: "wstring \<Rightarrow> ByteArray \<Rightarrow> bool \<times> ByteArray" where
  "FromHex_loop (c1 # c2 # szHex) buffer =
     (case FromHex_char c1 of
        None \<Rightarrow> (False, buffer)
      | Some b1 \<Rightarrow>
          (case FromHex_char c2 of
             None \<Rightarrow> (False, buffer)
           | Some b2 \<Rightarrow> FromHex_loop szHex (buffer @ [b1 * 16 + b2])))"
| "FromHex_loop szHex buffer = (True, buffer)"

text \<open>
  \<^verbatim>\<open>bool FromHex(const TCHAR* szHex, ByteArray& buffer)\<close>: the returned flag and the
  final content of \<^verbatim>\<open>buffer\<close>, which the function clears first. Its callers never pass
  a null pointer.
\<close>

definition FromHex :: "wstring \<Rightarrow> bool \<times> ByteArray" where
  "FromHex szHex =
     (if length szHex mod 2 = 0
      then (case FromHex_loop szHex [] of
              (True, buffer) \<Rightarrow> (True, buffer)
            | (False, buffer) \<Rightarrow> (False, []))
      else (False, []))"

section \<open>Case-insensitive comparison and the two sort orders\<close>

text \<open>
  The program never calls \<^verbatim>\<open>setlocale\<close>, so the C runtime folds case in the "C" locale:
  only \<^verbatim>\<open>A\<close> to \<^verbatim>\<open>Z\<close> are mapped to lower case.
\<close>

definition towlower :: "wchar \<Rightarrow> wchar" where
  "towlower c = (if 0x41 \<le> c \<and> c \<le> 0x5A then c + 0x20 else c)"

text \<open>
  \<^verbatim>\<open>_wcsicmp\<close> (and \<^verbatim>\<open>_tcsicmp\<close>, the same function under \<^verbatim>\<open>UNICODE\<close>) compares the
  lower-case versions of two strings code unit by code unit, as unsigned values. The
  runtime documents only the sign of the result and the program only tests the sign:
  \<open>-1\<close>, \<open>0\<close> and \<open>1\<close> stand for negative, zero and positive.
\<close>

fun wcsicmp :: "wstring \<Rightarrow> wstring \<Rightarrow> int" where
  "wcsicmp [] [] = 0"
| "wcsicmp [] (y # ys) = -1"
| "wcsicmp (x # xs) [] = 1"
| "wcsicmp (x # xs) (y # ys) =
     (if towlower x = towlower y then wcsicmp xs ys
      else if towlower x < towlower y then -1 else 1)"

text \<open>\<^verbatim>\<open>bool compare_nocase(LPCWSTR first, LPCWSTR second)\<close>, used for sorting directory content.\<close>

definition compare_nocase :: "wstring \<Rightarrow> wstring \<Rightarrow> bool" where
  "compare_nocase first second = (wcsicmp first second < 0)"

text \<open>\<^verbatim>\<open>long long countPathDepth(const wstring& path)\<close>: the number of backslashes.\<close>

definition countPathDepth :: "wstring \<Rightarrow> int" where
  "countPathDepth path = int (length (filter (\<lambda>c. c = 0x5C) path))"

text \<open>
  The comparison that \<^verbatim>\<open>SortSumFile\<close> passes to \<^verbatim>\<open>std::sort\<close>, on the paths of two
  entries: entries with more directories come first, then \<^verbatim>\<open>_wcsicmp\<close> decides.
\<close>

definition SortSumFile_less :: "wstring \<Rightarrow> wstring \<Rightarrow> bool" where
  "SortSumFile_less a b =
     (let depthA = countPathDepth a; depthB = countPathDepth b
      in if depthA \<noteq> depthB then depthA > depthB else wcsicmp a b < 0)"

text \<open>
  \<^verbatim>\<open>std::list::sort(cmp)\<close> is a stable sort: elements that \<open>cmp\<close> does not order
  keep their relative order. \<open>list_insert\<close> puts an element in front of a sorted list,
  behind the elements that \<open>cmp\<close> places strictly before it.
\<close>

fun list_insert :: "('a \<Rightarrow> 'a \<Rightarrow> bool) \<Rightarrow> 'a \<Rightarrow> 'a list \<Rightarrow> 'a list" where
  "list_insert cmp x [] = [x]"
| "list_insert cmp x (y # ys) =
     (if cmp y x then y # list_insert cmp x ys else x # y # ys)"

definition list_sort :: "('a \<Rightarrow> 'a \<Rightarrow> bool) \<Rightarrow> 'a list \<Rightarrow> 'a list" where
  "list_sort cmp xs = foldr (list_insert cmp) xs []"

section \<open>Hash engines\<close>

text \<open>
  The concrete subclasses of \<^verbatim>\<open>class Hash\<close>. \<^verbatim>\<open>Streebog\<close> is compiled only when the
  macro \<^verbatim>\<open>USE_STREEBOG\<close> is defined; the build setting is not part of the source file and
  is a parameter of the functions that depend on it.
\<close>

datatype HashClass =
  Sha1Cng | Sha256Cng | Sha384Cng | Sha512Cng | Md5Cng
  | NeonBlake2s | NeonBlake2b | Blake3Hash | Streebog

text \<open>
  The hash primitives are libraries outside the program. The context of an engine
  (\<^verbatim>\<open>m_ctx\<close>, or the CNG hash object) is represented by the bytes that the engine has
  absorbed since \<^verbatim>\<open>Init\<close>: this is all that a primitive's digest depends on. The
  engines modelled are the valid ones, for which the CNG provider gave a hash object;
  \<^verbatim>\<open>_tmain\<close> stops at once when an engine is not valid.
\<close>

record Hash =
  hash_class :: HashClass
  m_ctx :: ByteArray

text \<open>The constructors: each one calls \<^verbatim>\<open>Init\<close>, which starts an empty context.\<close>

definition new_Hash :: "HashClass \<Rightarrow> Hash" where
  "new_Hash c = \<lparr>hash_class = c, m_ctx = []\<rparr>"

definition Init :: "Hash \<Rightarrow> Hash" where
  "Init h = h\<lparr>m_ctx := []\<rparr>"

definition Update :: "Hash \<Rightarrow> ByteArray \<Rightarrow> Hash" where
  "Update h pbData = h\<lparr>m_ctx := m_ctx h @ pbData\<rparr>"

text \<open>
  \<^verbatim>\<open>Final\<close> writes the digest of the absorbed bytes; \<open>prim\<close> is the primitive of each
  class, a parameter.
\<close>

definition Final :: "(HashClass \<Rightarrow> ByteArray \<Rightarrow> ByteArray) \<Rightarrow> Hash \<Rightarrow> ByteArray" where
  "Final prim h = prim (hash_class h) (m_ctx h)"

fun GetID_class :: "HashClass \<Rightarrow> wstring" where
  "GetID_class Sha1Cng = wstr ''SHA1''"
| "GetID_class Sha256Cng = wstr ''SHA256''"
| "GetID_class Sha384Cng = wstr ''SHA384''"
| "GetID_class Sha512Cng = wstr ''SHA512''"
| "GetID_class Md5Cng = wstr ''MD5''"
| "GetID_class NeonBlake2s = wstr ''Blake2s''"
| "GetID_class NeonBlake2b = wstr ''Blake2b''"
| "GetID_class Blake3Hash = wstr ''Blake3''"
| "GetID_class Streebog = wstr ''Streebog''"

definition GetID :: "Hash \<Rightarrow> wstring" where
  "GetID h = GetID_class (hash_class h)"




text \<open>\<^verbatim>\<open>bool Hash::IsHashId(LPCTSTR szHashId)\<close>.\<close>

definition IsHashId :: "wstring \<Rightarrow> bool" where
  "IsHashId szHashId =
     (wcsicmp szHashId (wstr ''SHA1'') = 0
      \<or> wcsicmp szHashId (wstr ''SHA256'') = 0
      \<or> wcsicmp szHashId (wstr ''SHA384'') = 0
      \<or> wcsicmp szHashId (wstr ''SHA512'') = 0
      \<or> wcsicmp szHashId (wstr ''MD5'') = 0
      \<or> wcsicmp szHashId (wstr ''Streebog'') = 0
      \<or> wcsicmp szHashId (wstr ''Blake2s'') = 0
      \<or> wcsicmp szHashId (wstr ''Blake2b'') = 0
      \<or> wcsicmp szHashId (wstr ''Blake3'') = 0)"

text \<open>
  \<^verbatim>\<open>Hash* Hash::GetHash(LPCTSTR szHashId)\<close>; \<open>None\<close> is the null pointer. No caller
  passes a null \<^verbatim>\<open>szHashId\<close>. The first argument says whether \<^verbatim>\<open>USE_STREEBOG\<close> is
  defined.
\<close>

definition GetHash :: "bool \<Rightarrow> wstring \<Rightarrow> Hash option" where
  "GetHash USE_STREEBOG szHashId =
     (if wcsicmp szHashId (wstr ''SHA1'') = 0 then Some (new_Hash Sha1Cng)
      else if wcsicmp szHashId (wstr ''SHA256'') = 0 then Some (new_Hash Sha256Cng)
      else if wcsicmp szHashId (wstr ''SHA384'') = 0 then Some (new_Hash Sha384Cng)
      else if wcsicmp szHashId (wstr ''SHA512'') = 0 then Some (new_Hash Sha512Cng)
      else if wcsicmp szHashId (wstr ''MD5'') = 0 then Some (new_Hash Md5Cng)
      else if wcsicmp szHashId (wstr ''Blake2s'') = 0 then Some (new_Hash NeonBlake2s)
      else if wcsicmp szHashId (wstr ''Blake2b'') = 0 then Some (new_Hash NeonBlake2b)
      else if wcsicmp szHashId (wstr ''Blake3'') = 0 then Some (new_Hash Blake3Hash)
      else if USE_STREEBOG \<and> wcsicmp szHashId (wstr ''Streebog'') = 0
        then Some (new_Hash Streebog)
      else None)"

text \<open>\<^verbatim>\<open>virtual Hash* Clone() { return GetHash(GetID()); }\<close>\<close>

definition Clone :: "bool \<Rightarrow> Hash \<Rightarrow> Hash option" where
  "Clone USE_STREEBOG h = GetHash USE_STREEBOG (GetID h)"

text \<open>
  \<^verbatim>\<open>CloneHashes\<close> pushes the clone of every engine of \<^verbatim>\<open>pHashes\<close> to the output vector,
  and \<^verbatim>\<open>UpdateHashes\<close> feeds one buffer to every engine.
\<close>

definition CloneHashes :: "bool \<Rightarrow> Hash list \<Rightarrow> Hash option list \<Rightarrow> Hash option list" where
  "CloneHashes USE_STREEBOG pHashes pOutputHashes =
     pOutputHashes @ map (Clone USE_STREEBOG) pHashes"

definition UpdateHashes :: "Hash list \<Rightarrow> ByteArray \<Rightarrow> Hash list" where
  "UpdateHashes pHashes pbBuffer = map (\<lambda>h. Update h pbBuffer) pHashes"

text \<open>\<^verbatim>\<open>bool Hash::IsHashSize(int size)\<close>.\<close>

definition IsHashSize :: "int \<Rightarrow> bool" where
  "IsHashSize sz = (sz = 16 \<or> sz = 20 \<or> sz = 32 \<or> sz = 48 \<or> sz = 64)"

text \<open>\<^verbatim>\<open>Hash::GetSupportedHashIds\<close>.\<close>

definition GetSupportedHashIds :: "wstring list" where
  "GetSupportedHashIds =
     [wstr ''MD5'', wstr ''SHA1'', wstr ''SHA256'', wstr ''SHA384'', wstr ''SHA512'',
      wstr ''Streebog'', wstr ''Blake2s'', wstr ''Blake2b'', wstr ''Blake3'']"

subsection \<open>Comma-separated algorithm lists\<close>

text \<open>
  \<^verbatim>\<open>std::wstring::find_first_of\<close> for one character, from position \<open>pos\<close>
  (\<open>None\<close> is \<^verbatim>\<open>npos\<close>), and \<^verbatim>\<open>substr\<close>.
\<close>

definition find_first_of :: "wstring \<Rightarrow> wchar \<Rightarrow> nat \<Rightarrow> nat option" where
  "find_first_of s c pos =
     (let n = length (takeWhile (\<lambda>x. x \<noteq> c) (drop pos s))
      in if pos + n < length s then Some (pos + n) else None)"

definition substr :: "wstring \<Rightarrow> nat \<Rightarrow> nat \<Rightarrow> wstring" where
  "substr s pos n = take n (drop pos s)"

text \<open>
  The loop of \<^verbatim>\<open>Hash::IsHashIdCombination\<close>, from the position \<open>pos\<close>. In the source
  the loop runs while \<^verbatim>\<open>pos != posEnd\<close>; \<open>pos\<close> never exceeds \<open>posEnd\<close>.
\<close>

function IsHashIdCombination_loop :: "wstring \<Rightarrow> nat \<Rightarrow> bool" where
  "IsHashIdCombination_loop strHashId pos =
     (let posEnd = length strHashId in
      if pos < posEnd then
        (let pos2 = (case find_first_of strHashId 0x2C pos of None \<Rightarrow> posEnd | Some p \<Rightarrow> p);
             strHashIdPart = substr strHashId pos (pos2 - pos)
         in if \<not> IsHashId strHashIdPart then False
            else if pos2 \<noteq> posEnd then
              (if pos2 + 1 = posEnd then False
               else IsHashIdCombination_loop strHashId (pos2 + 1))
            else True)
      else True)"
  by pat_completeness auto
termination
proof (relation "measure (\<lambda>(s, pos). length s - pos)")
  show "wf (measure (\<lambda>(s, pos). length s - pos))" by simp
next
  fix strHashId :: wstring and pos x xa
  assume "x = length strHashId" "pos < x"
    and xa: "xa = (case find_first_of strHashId 0x2C pos of None \<Rightarrow> x | Some p \<Rightarrow> p)"
  then have "pos \<le> xa"
    by (auto simp: find_first_of_def Let_def split: option.splits if_splits)
  with \<open>pos < x\<close> \<open>x = length strHashId\<close>
  show "((strHashId, xa + 1), strHashId, pos) \<in> measure (\<lambda>(s, pos). length s - pos)"
    by simp
qed

definition IsHashIdCombination :: "wstring \<Rightarrow> bool" where
  "IsHashIdCombination szHashId = IsHashIdCombination_loop szHashId 0"

text \<open>
  The loop of \<^verbatim>\<open>Hash::GetHashes\<close>, from the position \<open>pos\<close> with the vector \<open>res\<close>
  built so far.
\<close>

function GetHashes_loop :: "bool \<Rightarrow> wstring \<Rightarrow> nat \<Rightarrow> Hash list \<Rightarrow> Hash list" where
  "GetHashes_loop USE_STREEBOG strHashId pos res =
     (let posEnd = length strHashId in
      if pos < posEnd then
        (let pos2 = (case find_first_of strHashId 0x2C pos of None \<Rightarrow> posEnd | Some p \<Rightarrow> p);
             strHashIdPart = substr strHashId pos (pos2 - pos)
         in if IsHashId strHashIdPart then
              (let res' = (case GetHash USE_STREEBOG strHashIdPart of
                             Some hash \<Rightarrow> res @ [hash]
                           | None \<Rightarrow> res)
               in if pos2 \<noteq> posEnd then
                    (if pos2 + 1 = posEnd then []
                     else GetHashes_loop USE_STREEBOG strHashId (pos2 + 1) res')
                  else res')
            else [])
      else res)"
  by pat_completeness auto
termination
proof (relation "measure (\<lambda>(u, s, pos, res). length s - pos)")
  show "wf (measure (\<lambda>(u, s, pos, res). length s - pos))" by simp
next
  fix USE_STREEBOG :: bool and strHashId :: wstring and pos x xa
    and res xb xc :: "Hash list"
  assume "x = length strHashId" "pos < x"
    and xa: "xa = (case find_first_of strHashId 0x2C pos of None \<Rightarrow> x | Some p \<Rightarrow> p)"
  then have "pos \<le> xa"
    by (auto simp: find_first_of_def Let_def split: option.splits if_splits)
  with \<open>pos < x\<close> \<open>x = length strHashId\<close>
  show "((USE_STREEBOG, strHashId, xa + 1, xc), USE_STREEBOG, strHashId, pos, res)
          \<in> measure (\<lambda>(u, s, pos, res). length s - pos)"
    by simp
qed

definition GetHashes :: "bool \<Rightarrow> wstring \<Rightarrow> Hash list" where
  "GetHashes USE_STREEBOG szHashId = GetHashes_loop USE_STREEBOG szHashId 0 []"

subsection \<open>The specification's reading of an algorithm list\<close>

text \<open>
  The specification says that an algorithm list is split on the commas, without trimming.
  \<open>spec_segments\<close> follows these words: the segments between the commas, so that a
  string with \<open>n\<close> commas has \<open>n + 1\<close> segments, some of them possibly empty.
\<close>

fun spec_segments :: "wstring \<Rightarrow> wstring list" where
  "spec_segments [] = [[]]"
| "spec_segments (c # cs) =
     (if c = 0x2C then [] # spec_segments cs
      else (case spec_segments cs of
              [] \<Rightarrow> [[c]]
            | seg # segs \<Rightarrow> (c # seg) # segs))"

section \<open>Checksum files\<close>

text \<open>\<^verbatim>\<open>class HashResultEntry\<close>; a new entry has an empty name and digest and is not processed.\<close>

record HashResultEntry =
  m_hashName :: wstring
  m_digest :: ByteArray
  m_processed :: bool

definition new_HashResultEntry :: HashResultEntry where
  "new_HashResultEntry = \<lparr>m_hashName = [], m_digest = [], m_processed = False\<rparr>"

text \<open>
  A \<^verbatim>\<open>std::map<wstring, HashResultEntry>\<close> is an association list that holds every key
  once. \<open>map_of\<close> is \<^verbatim>\<open>find\<close>; \<open>map_index\<close> is \<^verbatim>\<open>operator[]\<close>, which inserts a new
  entry when the key is absent, followed by the change \<open>f\<close> of the entry.
\<close>

type_synonym digest_map = "(wstring \<times> HashResultEntry) list"

definition map_index :: "digest_map \<Rightarrow> wstring \<Rightarrow> (HashResultEntry \<Rightarrow> HashResultEntry) \<Rightarrow> digest_map" where
  "map_index m k f =
     AList.update k (f (case map_of m k of None \<Rightarrow> new_HashResultEntry | Some e \<Rightarrow> e)) m"

text \<open>
  The buffer \<^verbatim>\<open>szLine\<close> holds the line and its terminating NUL: reading the position
  \<open>length szLine\<close> gives 0.
\<close>

definition char_at :: "wstring \<Rightarrow> nat \<Rightarrow> wchar" where
  "char_at szLine i = (if i < length szLine then szLine ! i else 0)"

text \<open>\<^verbatim>\<open>wcschr\<close>: the position of the first occurrence of a character, if any.\<close>

definition wcschr :: "wstring \<Rightarrow> wchar \<Rightarrow> nat option" where
  "wcschr s c = find_first_of s c 0"

text \<open>
  \<^verbatim>\<open>while (ptr != &szLine[l - 1] && *ptr == L' ') ptr++;\<close> in a line of length
  \<open>l > 0\<close>; pointers into the buffer are positions.
\<close>

function skip_spaces :: "wstring \<Rightarrow> nat \<Rightarrow> nat" where
  "skip_spaces szLine ptr =
     (if ptr \<noteq> length szLine - 1 \<and> char_at szLine ptr = 0x20
      then skip_spaces szLine (ptr + 1) else ptr)"
  by pat_completeness auto
termination
  by (relation "measure (\<lambda>(szLine, ptr). length szLine - ptr)")
     (auto simp: char_at_def split: if_splits)

text \<open>
  What the body of the loop of \<^verbatim>\<open>ParseSumFile\<close> does with one non-empty line, given
  the digest length \<open>digestLen\<close> fixed so far (0 when none is): the digest and the entry
  name when the line is accepted, \<open>None\<close> when \<^verbatim>\<open>bFailed\<close> stays true. The arguments
  \<open>g_inputDirPath\<close> and \<open>normalizePath\<close> are the global variable and the parameter of that
  name; \<^verbatim>\<open>g_inputDirPathLength\<close> is always the length of \<^verbatim>\<open>g_inputDirPath\<close>.
\<close>

definition ParseSumFile_line ::
  "wstring \<Rightarrow> bool \<Rightarrow> nat \<Rightarrow> wstring \<Rightarrow> (ByteArray \<times> wstring) option" where
  "ParseSumFile_line g_inputDirPath normalizePath digestLen szLine =
     (case wcschr szLine 0x20 of
        None \<Rightarrow> None
      | Some p \<Rightarrow>
          (let l = length szLine;
               ptr = skip_spaces szLine (p + 1);
               ptr = (if ptr \<noteq> l - 1 \<and> char_at szLine ptr = 0x2A then ptr + 1 else ptr)
           in if ptr \<noteq> l - 1 then
                (case FromHex (take p szLine) of
                   (True, digest) \<Rightarrow>
                     if (digestLen \<noteq> 0 \<and> digestLen = length digest)
                        \<or> (digestLen = 0 \<and> IsHashSize (int (length digest)))
                     then
                       (let entryName = map (\<lambda>c. if c = 0x2F then 0x5C else c) (drop ptr szLine);
                            g_inputDirPathLength = length g_inputDirPath;
                            entryName =
                              (if normalizePath \<and> g_inputDirPathLength \<noteq> 0
                                  \<and> (length entryName < g_inputDirPathLength
                                       \<or> wcsicmp g_inputDirPath
                                            (substr entryName 0 g_inputDirPathLength) \<noteq> 0)
                               then g_inputDirPath @ entryName else entryName)
                        in Some (digest, entryName))
                     else None
                 | (False, digest) \<Rightarrow> None)
              else None))"

text \<open>The local variables of \<^verbatim>\<open>ParseSumFile\<close> together with its two output parameters.\<close>

record sumfile_state =
  digestLen :: nat
  lineNumber :: int
  digestList :: digest_map
  skippedLines :: "int list"
  bFailed :: bool

text \<open>A line ends with the newline that \<^verbatim>\<open>fgetws\<close> kept, which the loop removes.\<close>

definition chomp :: "wstring \<Rightarrow> wstring" where
  "chomp szLine = (if szLine \<noteq> [] \<and> last szLine = 0x0A then butlast szLine else szLine)"

text \<open>
  The \<^verbatim>\<open>while (fgetws(...))\<close> loop over the lines of the file. A line is what one call
  of \<^verbatim>\<open>fgetws\<close> returns. An empty line is passed over by \<^verbatim>\<open>continue\<close>; a failure on
  line 1 leaves the loop by \<^verbatim>\<open>break\<close>.
\<close>

fun ParseSumFile_loop :: "wstring \<Rightarrow> bool \<Rightarrow> wstring list \<Rightarrow> sumfile_state \<Rightarrow> sumfile_state" where
  "ParseSumFile_loop g_inputDirPath normalizePath [] st = st"
| "ParseSumFile_loop g_inputDirPath normalizePath (line # lines) st =
     (let szLine = chomp line;
          st = st\<lparr>lineNumber := lineNumber st + 1\<rparr>
      in if length szLine = 0 then ParseSumFile_loop g_inputDirPath normalizePath lines st
         else
           (case ParseSumFile_line g_inputDirPath normalizePath (digestLen st) szLine of
              Some (digest, entryName) \<Rightarrow>
                ParseSumFile_loop g_inputDirPath normalizePath lines
                  (st\<lparr>digestLen := length digest,
                      digestList := map_index (digestList st) entryName (\<lambda>e. e\<lparr>m_digest := digest\<rparr>),
                      bFailed := False\<rparr>)
            | None \<Rightarrow>
                if lineNumber st > 1
                then ParseSumFile_loop g_inputDirPath normalizePath lines
                       (st\<lparr>skippedLines := skippedLines st @ [lineNumber st], bFailed := False\<rparr>)
                else st\<lparr>bFailed := True\<rparr>))"

text \<open>
  \<^verbatim>\<open>bool ParseSumFile(const CPath& sumFile, map<wstring, HashResultEntry>& digestList,
  vector<int>& skippedLines, bool normalizePath)\<close>. The file is given by the lines read
  from it, \<open>None\<close> when it cannot be opened. The result is the returned flag with the
  final values of the two output parameters.
\<close>

definition ParseSumFile ::
  "wstring \<Rightarrow> wstring list option \<Rightarrow> digest_map \<Rightarrow> int list \<Rightarrow> bool
     \<Rightarrow> bool \<times> digest_map \<times> int list" where
  "ParseSumFile g_inputDirPath sumFile digestList0 skippedLines0 normalizePath =
     (case sumFile of
        None \<Rightarrow> (False, digestList0, skippedLines0)
      | Some lines \<Rightarrow>
          (let st = ParseSumFile_loop g_inputDirPath normalizePath lines
                      \<lparr>digestLen = 0, lineNumber = 0, digestList = [], skippedLines = [],
                       bFailed = False\<rparr>
           in if bFailed st then (False, [], skippedLines st)
              else if length (digestList st) = 0 then (False, digestList st, skippedLines st)
              else (True, digestList st, skippedLines st)))"

section \<open>Result files\<close>






subsection \<open>The specification's reading of a checksum file\<close>

text \<open>
  The specification says that the first accepted line fixes the digest length of the
  file. \<open>fixed_digest_len\<close> follows these words: the length of the digest of the first of
  the given lines that is accepted when no length is fixed yet, and 0 when there is no
  such line.
\<close>

definition fixed_digest_len :: "wstring \<Rightarrow> bool \<Rightarrow> wstring list \<Rightarrow> nat" where
  "fixed_digest_len g_inputDirPath normalizePath lines =
     (case List.find (\<lambda>line. ParseSumFile_line g_inputDirPath normalizePath 0 (chomp line) \<noteq> None)
             lines of
        None \<Rightarrow> 0
      | Some line \<Rightarrow>
          (case ParseSumFile_line g_inputDirPath normalizePath 0 (chomp line) of
             None \<Rightarrow> 0
           | Some (digest, entryName) \<Rightarrow> length digest))"

text \<open>
  What the line of index \<open>k\<close> (line \<open>k + 1\<close> of the file) parses to under the digest
  length that the lines before it fix; the line fails to parse when it is not empty
  and this is \<open>None\<close>.
\<close>

definition line_parse :: "wstring \<Rightarrow> bool \<Rightarrow> wstring list \<Rightarrow> nat \<Rightarrow> (ByteArray \<times> wstring) option" where
  "line_parse g_inputDirPath normalizePath lines k =
     ParseSumFile_line g_inputDirPath normalizePath
       (fixed_digest_len g_inputDirPath normalizePath (take k lines)) (chomp (lines ! k))"

definition line_fails :: "wstring \<Rightarrow> bool \<Rightarrow> wstring list \<Rightarrow> nat \<Rightarrow> bool" where
  "line_fails g_inputDirPath normalizePath lines k \<longleftrightarrow>
     chomp (lines ! k) \<noteq> [] \<and> line_parse g_inputDirPath normalizePath lines k = None"

text \<open>The paths and digests of the accepted lines, in the order of the lines.\<close>

definition accepted_entries :: "wstring \<Rightarrow> bool \<Rightarrow> wstring list \<Rightarrow> (wstring \<times> ByteArray) list" where
  "accepted_entries g_inputDirPath normalizePath lines =
     List.map_filter
       (\<lambda>k. case line_parse g_inputDirPath normalizePath lines k of
               None \<Rightarrow> None
             | Some (digest, entryName) \<Rightarrow> Some (entryName, digest))
       [0..<length lines]"

text \<open>
  One round of the loop of \<open>ParseSumFile\<close> as a function of the state, for the proofs:
  once the loop is left by \<^verbatim>\<open>break\<close> no line changes the state.
\<close>

definition ParseSumFile_step :: "wstring \<Rightarrow> bool \<Rightarrow> sumfile_state \<Rightarrow> wstring \<Rightarrow> sumfile_state" where
  "ParseSumFile_step g_inputDirPath normalizePath st line =
     (if bFailed st then st else ParseSumFile_loop g_inputDirPath normalizePath [line] st)"

text \<open>
  The digest and the entry name that a line holds, whatever the digest length fixed so
  far, for the proofs: \<open>ParseSumFile_line\<close> is this followed by the test of the length.
\<close>

definition ParseSumFile_fields :: "wstring \<Rightarrow> bool \<Rightarrow> wstring \<Rightarrow> (ByteArray \<times> wstring) option" where
  "ParseSumFile_fields g_inputDirPath normalizePath szLine =
     (case wcschr szLine 0x20 of
        None \<Rightarrow> None
      | Some p \<Rightarrow>
          (let l = length szLine;
               ptr = skip_spaces szLine (p + 1);
               ptr = (if ptr \<noteq> l - 1 \<and> char_at szLine ptr = 0x2A then ptr + 1 else ptr)
           in if ptr \<noteq> l - 1 then
                (case FromHex (take p szLine) of
                   (True, digest) \<Rightarrow>
                     (let entryName = map (\<lambda>c. if c = 0x2F then 0x5C else c) (drop ptr szLine);
                          g_inputDirPathLength = length g_inputDirPath;
                          entryName =
                            (if normalizePath \<and> g_inputDirPathLength \<noteq> 0
                                \<and> (length entryName < g_inputDirPathLength
                                     \<or> wcsicmp g_inputDirPath
                                          (substr entryName 0 g_inputDirPathLength) \<noteq> 0)
                             then g_inputDirPath @ entryName else entryName)
                      in Some (digest, entryName))
                 | (False, digest) \<Rightarrow> None)
              else None))"

text \<open>
  The table that the accepted lines build, for the proofs: each line sets the digest of
  the entry of its path through \<^verbatim>\<open>operator[]\<close>.
\<close>

definition table_of :: "(wstring \<times> ByteArray) list \<Rightarrow> digest_map" where
  "table_of entries =
     foldl (\<lambda>m (entryName, digest). map_index m entryName (\<lambda>e. e\<lparr>m_digest := digest\<rparr>)) [] entries"

definition ParseSumFile_init :: sumfile_state where
  "ParseSumFile_init =
     \<lparr>digestLen = 0, lineNumber = 0, digestList = [], skippedLines = [], bFailed = False\<rparr>"

section \<open>Paths and the directory walk\<close>

text \<open>\<^verbatim>\<open>class CPath\<close>: the path as given and its absolute form.\<close>

record CPath =
  m_path :: wstring
  m_absolutPath :: wstring

definition AppendName :: "CPath \<Rightarrow> wstring \<Rightarrow> CPath" where
  "AppendName p szName =
     \<lparr>m_path = m_path p @ [0x5C] @ szName,
      m_absolutPath = m_absolutPath p @ [0x5C] @ szName\<rparr>"

text \<open>
  \<^verbatim>\<open>class CDirContent\<close>: its constructor appends the name to the path of the directory.
  The conversion \<^verbatim>\<open>operator LPCWSTR\<close>, which the sort of the directory content compares,
  gives the whole path, not only the name.
\<close>

record CDirContent =
  m_szPath :: CPath
  m_bIsDir :: bool

definition new_CDirContent :: "CPath \<Rightarrow> wstring \<Rightarrow> bool \<Rightarrow> CDirContent" where
  "new_CDirContent szPath szName bIsDir =
     \<lparr>m_szPath = AppendName szPath szName, m_bIsDir = bIsDir\<rparr>"

definition LPCWSTR :: "CDirContent \<Rightarrow> wstring" where
  "LPCWSTR content = m_path (m_szPath content)"

text \<open>
  The file system under the directory being walked. A directory gives the error of
  \<^verbatim>\<open>FindFirstFile\<close> if it fails, the entries that \<^verbatim>\<open>FindFirstFile\<close> and \<^verbatim>\<open>FindNextFile\<close>
  return in their order, and the value of \<^verbatim>\<open>GetLastError\<close> after the last
  \<^verbatim>\<open>FindNextFile\<close>. An entry is its \<^verbatim>\<open>cFileName\<close>, whether \<^verbatim>\<open>IsReparsePoint\<close> holds of
  it, and the file or directory itself; the attribute \<^verbatim>\<open>FILE_ATTRIBUTE_DIRECTORY\<close> is
  set on the directories. A file says whether \<^verbatim>\<open>CreateFileW\<close> and \<^verbatim>\<open>GetFileSizeEx\<close>
  succeed on it.
\<close>

datatype fsfile = FsFile (can_open: bool)

datatype fsdir =
  FsDir (find_first_error: "DWORD option")
        (dir_entries: "(wstring \<times> bool \<times> (fsfile + fsdir)) list")
        (find_last_error: DWORD)

definition ERROR_NO_MORE_FILES :: DWORD where
  "ERROR_NO_MORE_FILES = 18"

text \<open>
  What the walk reads and never writes: the pattern lists and flags set from the command
  line, the two file names, the parameter \<^verbatim>\<open>bSumMode\<close> that every call passes on
  unchanged, and \<^verbatim>\<open>PathMatchSpec\<close> of the Windows shell library.
\<close>

record walk_config =
  PathMatchSpec :: "wstring \<Rightarrow> wstring \<Rightarrow> bool"
  onlySpecList :: "wstring list"
  excludeSpecList :: "wstring list"
  g_bNoFollow :: bool
  g_bSkipError :: bool
  g_verificationFileName :: CPath
  g_outputFileName :: CPath
  bSumMode :: bool

text \<open>\<^verbatim>\<open>bool IsExcludedName(LPCTSTR szName, bool bIsFile)\<close>.\<close>

definition IsExcludedName :: "walk_config \<Rightarrow> wstring \<Rightarrow> bool \<Rightarrow> bool" where
  "IsExcludedName cfg szName bIsFile =
     (if bIsFile \<and> onlySpecList cfg \<noteq> []
      then \<not> list_ex (PathMatchSpec cfg szName) (onlySpecList cfg)
      else list_ex (PathMatchSpec cfg szName) (excludeSpecList cfg))"

text \<open>
  What the walk changes: \<^verbatim>\<open>g_sumFileSkipped\<close> and the \<^verbatim>\<open>m_processed\<close> marks of the
  table of expected digests (\<^verbatim>\<open>digestsList\<close> of \<^verbatim>\<open>_tmain\<close>, the parameter
  \<^verbatim>\<open>digestList\<close> of the walk). The bytes fed to the hash engines, the digests compared
  or written and the messages are outside this model.
\<close>

record walk_state =
  g_sumFileSkipped :: bool
  digestsList :: digest_map

text \<open>
  The record of a walk: a file for which \<^verbatim>\<open>HashFile\<close> reached \<^verbatim>\<open>CreateFileW\<close>, with
  whether it could be opened (it is then hashed, or queued for the worker threads), and
  a directory that \<^verbatim>\<open>HashDirectory\<close> listed, with the record of the loop over its sorted
  content.
\<close>

datatype visit = VFile CPath bool | VDir CPath "visit list"

type_synonym walk_result = "DWORD \<times> walk_state \<times> visit list"

text \<open>\<^verbatim>\<open>DWORD HashFile(const CPath& filePath, ...)\<close> on the file \<open>f\<close>.\<close>

definition HashFile :: "walk_config \<Rightarrow> fsfile \<Rightarrow> CPath \<Rightarrow> walk_state \<Rightarrow> walk_result" where
  "HashFile cfg f filePath st =
     (let szFilePath = m_path filePath;
          open_file = (\<lambda>st.
            if can_open f then (0, st, [VFile filePath True])
            else if g_bSkipError cfg then (0, st, [VFile filePath False])
            else (- 1, st, [VFile filePath False]))
      in if IsExcludedName cfg szFilePath True then (0, st, [])
         else if bSumMode cfg \<and> digestsList st \<noteq> [] then
           (case map_of (digestsList st) szFilePath of
              None \<Rightarrow> if g_bSkipError cfg then (0, st, []) else (- 5, st, [])
            | Some e \<Rightarrow>
                open_file (st\<lparr>digestsList :=
                  AList.update szFilePath (e\<lparr>m_processed := True\<rparr>) (digestsList st)\<rparr>))
         else open_file st)"

text \<open>
  One round of the \<^verbatim>\<open>do ... while (FindNextFile(...))\<close> loop of \<^verbatim>\<open>HashDirectory\<close>: the
  entry \<open>(cFileName, reparse, isDir, item)\<close> is pushed to \<^verbatim>\<open>dirContent\<close> or left out.
  With each \<^verbatim>\<open>CDirContent\<close> goes \<open>item\<close>, which stands for the file-system object
  behind its path.
\<close>

definition HashDirectory_find ::
  "walk_config \<Rightarrow> CPath \<Rightarrow> wstring \<times> bool \<times> bool \<times> 'a
     \<Rightarrow> (CDirContent \<times> 'a) list \<times> walk_state \<Rightarrow> (CDirContent \<times> 'a) list \<times> walk_state" where
  "HashDirectory_find cfg dirPath ffd acc =
     (case (ffd, acc) of ((cFileName, reparse, isDir, item), (dirContent, st)) \<Rightarrow>
        if isDir then
          (if cFileName \<noteq> wstr ''.'' \<and> cFileName \<noteq> wstr ''..'' then
             (let entry = new_CDirContent dirPath cFileName True
              in if \<not> g_bNoFollow cfg \<or> \<not> reparse
                 then (dirContent @ [(entry, item)], st) else (dirContent, st))
           else (dirContent, st))
        else
          (let entry = new_CDirContent dirPath cFileName False
           in if \<not> g_bNoFollow cfg \<or> \<not> reparse then
                (if bSumMode cfg \<and> \<not> g_sumFileSkipped st then
                   (if digestsList st \<noteq> [] then
                      (if wcsicmp (m_absolutPath (g_verificationFileName cfg))
                            (m_absolutPath (m_szPath entry)) = 0
                       then (dirContent, st\<lparr>g_sumFileSkipped := True\<rparr>)
                       else (dirContent @ [(entry, item)], st))
                    else
                      (if m_absolutPath (g_outputFileName cfg) = []
                       then (dirContent @ [(entry, item)], st\<lparr>g_sumFileSkipped := True\<rparr>)
                       else if wcsicmp (m_absolutPath (g_outputFileName cfg))
                                 (m_absolutPath (m_szPath entry)) = 0
                       then (dirContent, st\<lparr>g_sumFileSkipped := True\<rparr>)
                       else (dirContent @ [(entry, item)], st)))
                 else (dirContent @ [(entry, item)], st))
              else (dirContent, st)))"

text \<open>
  The last loop of \<^verbatim>\<open>HashDirectory\<close>, over the sorted \<^verbatim>\<open>dirContent\<close>: each element is
  handed to \<^verbatim>\<open>HashDirectory\<close> or to \<^verbatim>\<open>HashFile\<close> (the function \<open>hash_it\<close> that goes with
  it), and the first error ends the loop.
\<close>

fun HashDirectory_loop ::
  "(CDirContent \<times> (CPath \<Rightarrow> walk_state \<Rightarrow> walk_result)) list \<Rightarrow> walk_state \<Rightarrow> walk_result" where
  "HashDirectory_loop [] st = (0, st, [])"
| "HashDirectory_loop ((it, hash_it) # rest) st =
     (case hash_it (m_szPath it) st of (dwError, st', vs) \<Rightarrow>
        if dwError \<noteq> 0 then (dwError, st', vs)
        else (case HashDirectory_loop rest st' of (dwError', st'', vs') \<Rightarrow>
                (dwError', st'', vs @ vs')))"

text \<open>
  The body of \<^verbatim>\<open>HashDirectory\<close> once the file-system objects of the entries are
  paired with the functions that the last loop calls on them.
\<close>

definition HashDirectory_body ::
  "walk_config \<Rightarrow> DWORD option
     \<Rightarrow> (wstring \<times> bool \<times> bool \<times> (CPath \<Rightarrow> walk_state \<Rightarrow> walk_result)) list \<Rightarrow> DWORD
     \<Rightarrow> CPath \<Rightarrow> walk_state \<Rightarrow> walk_result" where
  "HashDirectory_body cfg first_error ffds last_error dirPath st =
     (if IsExcludedName cfg (m_path dirPath) False then (0, st, [])
      else
        (case first_error of
           Some dwError \<Rightarrow>
             if g_bSkipError cfg then (0, st, [VDir dirPath []])
             else (dwError, st, [VDir dirPath []])
         | None \<Rightarrow>
             (case foldl (\<lambda>acc ffd. HashDirectory_find cfg dirPath ffd acc) ([], st) ffds of
                (dirContent, st1) \<Rightarrow>
                  if last_error \<noteq> ERROR_NO_MORE_FILES then
                    (if g_bSkipError cfg then (0, st1, [VDir dirPath []])
                     else (last_error, st1, [VDir dirPath []]))
                  else
                    (let sorted = list_sort (\<lambda>a b. compare_nocase (LPCWSTR (fst a)) (LPCWSTR (fst b)))
                                    dirContent
                     in case HashDirectory_loop sorted st1 of (dwError, st2, vs) \<Rightarrow>
                          (dwError, st2, [VDir dirPath vs])))))"

text \<open>\<^verbatim>\<open>DWORD HashDirectory(const CPath& dirPath, ...)\<close> on the directory \<open>d\<close>.\<close>

fun HashDirectory :: "walk_config \<Rightarrow> fsdir \<Rightarrow> CPath \<Rightarrow> walk_state \<Rightarrow> walk_result" where
  "HashDirectory cfg (FsDir first_error ffds last_error) =
     HashDirectory_body cfg first_error
       (map (\<lambda>(cFileName, reparse, item).
               (cFileName, reparse,
                (case item of
                   Inl f \<Rightarrow> (False, HashFile cfg f)
                 | Inr d \<Rightarrow> (True, HashDirectory cfg d))))
            ffds)
       last_error"

subsection \<open>The canonical tree order\<close>

text \<open>
  The specification's canonical tree order, on the record of a walk: the entries visited
  in a directory lie directly in it, their names (the path of the entry without the
  path of the directory and the separator) ascend in the case-insensitive comparison,
  and the same holds in every directory visited below.
\<close>

fun visit_path :: "visit \<Rightarrow> CPath" where
  "visit_path (VFile p opened) = p"
| "visit_path (VDir p vs) = p"

definition entry_name :: "CPath \<Rightarrow> visit \<Rightarrow> wstring" where
  "entry_name dirPath v = drop (length (m_path dirPath) + 1) (m_path (visit_path v))"

fun canonical_order :: "visit \<Rightarrow> bool" where
  "canonical_order (VFile p opened) = True"
| "canonical_order (VDir p vs) =
     ((\<forall>v \<in> set vs. m_path (visit_path v) = m_path p @ [0x5C] @ entry_name p v)
      \<and> sorted_wrt (\<lambda>a b. wcsicmp a b \<le> 0) (map (entry_name p) vs)
      \<and> (\<forall>v \<in> set vs. canonical_order v))"

text \<open>
  A function that the last loop of \<^verbatim>\<open>HashDirectory\<close> calls on an entry records at most
  one visit, that of the path it is given, in canonical order below.
\<close>

definition records_entry :: "(CPath \<Rightarrow> walk_state \<Rightarrow> walk_result) \<Rightarrow> bool" where
  "records_entry hash_it \<longleftrightarrow>
     (\<forall>p st. case snd (snd (hash_it p st)) of
                [] \<Rightarrow> True
              | v # vs \<Rightarrow> vs = [] \<and> visit_path v = p \<and> canonical_order v)"

subsection \<open>The scope of the include patterns\<close>









section \<open>The main function\<close>






text \<open>
  What \<^verbatim>\<open>_tmain\<close> finds outside the program: whether the build defines
  \<^verbatim>\<open>USE_STREEBOG\<close>; \<^verbatim>\<open>IsValid\<close>, whether the CNG provider gave an engine its hash
  object; \<^verbatim>\<open>EnsureAbsolut\<close>, which rests on the path functions of Windows;
  the object that the input path names (\<open>None\<close> when \<^verbatim>\<open>GetPathType\<close> fails, a file or a
  directory otherwise); whether \<^verbatim>\<open>IsReparsePoint(argv[1])\<close> holds; the lines of the
  verification file (\<open>None\<close> when it cannot be opened); and the conversion \<^verbatim>\<open>%2d\<close> of
  \<^verbatim>\<open>swscanf\<close> in the C runtime.
\<close>

record environment =
  USE_STREEBOG :: bool
  IsValid :: "Hash \<Rightarrow> bool"
  EnsureAbsolut :: "wstring \<Rightarrow> wstring"
  input_object :: "(fsfile + fsdir) option"
  argv1_IsReparsePoint :: bool
  verification_file :: "wstring list option"
  swscanf_2d :: "wstring \<Rightarrow> int option"












subsection \<open>The specification's hash-length check\<close>







section \<open>Example inputs\<close>

text \<open>
  A stand-in for \<^verbatim>\<open>PathMatchSpec\<close> that understands the patterns made of \<^verbatim>\<open>*\<close> and a
  suffix, without regard to case.
\<close>

definition example_PathMatchSpec :: "wstring \<Rightarrow> wstring \<Rightarrow> bool" where
  "example_PathMatchSpec pszFile pszSpec =
     (case pszSpec of
        [] \<Rightarrow> False
      | c # suffix \<Rightarrow>
          c = 0x2A \<and> length suffix \<le> length pszFile
          \<and> map towlower (drop (length pszFile - length suffix) pszFile) = map towlower suffix)"

definition example_path :: "wstring \<Rightarrow> CPath" where
  "example_path p = \<lparr>m_path = p, m_absolutPath = wstr ''C:'' @ [0x5C] @ p\<rparr>"

text \<open>
  No patterns and no flags, outside checksum mode; then only \<^verbatim>\<open>*.txt\<close>, the same in
  checksum mode, and without \<^verbatim>\<open>*.txt\<close>.
\<close>

definition example_config :: walk_config where
  "example_config =
     \<lparr>PathMatchSpec = example_PathMatchSpec, onlySpecList = [], excludeSpecList = [],
      g_bNoFollow = False, g_bSkipError = False,
      g_verificationFileName = \<lparr>m_path = [], m_absolutPath = []\<rparr>,
      g_outputFileName = \<lparr>m_path = [], m_absolutPath = []\<rparr>,
      bSumMode = False\<rparr>"




text \<open>
  A directory that lists \<^verbatim>\<open>.\<close>, \<^verbatim>\<open>..\<close>, \<^verbatim>\<open>b.txt\<close>, the directory \<^verbatim>\<open>Sub\<close> (holding \<^verbatim>\<open>z\<close> and
  \<^verbatim>\<open>Y.txt\<close>), \<^verbatim>\<open>a.TXT\<close> and \<^verbatim>\<open>C.bin\<close>, in this order.
\<close>

definition example_empty_dir :: fsdir where
  "example_empty_dir = FsDir None [] ERROR_NO_MORE_FILES"

definition example_tree :: fsdir where
  "example_tree =
     FsDir None
       [(wstr ''.'', False, Inr example_empty_dir),
        (wstr ''..'', False, Inr example_empty_dir),
        (wstr ''b.txt'', False, Inl (FsFile True)),
        (wstr ''Sub'', False,
           Inr (FsDir None
                  [(wstr ''z'', False, Inl (FsFile True)),
                   (wstr ''Y.txt'', False, Inl (FsFile True))]
                  ERROR_NO_MORE_FILES)),
        (wstr ''a.TXT'', False, Inl (FsFile True)),
        (wstr ''C.bin'', False, Inl (FsFile True))]
       ERROR_NO_MORE_FILES"

definition example_state :: walk_state where
  "example_state = \<lparr>g_sumFileSkipped = False, digestsList = []\<rparr>"

text \<open>
  Two MD5 digests and one SHA-1 digest in hexadecimal, and checksum files made of them:
  the first has an empty line, a line with a digest of another length, the path of
  its first line once more and a path with a slash; the first line of the second is no
  checksum line.
\<close>

definition example_md5 :: wstring where
  "example_md5 = wstr ''d41d8cd98f00b204e9800998ecf8427e''"

definition example_md5' :: wstring where
  "example_md5' = wstr ''0cc175b9c0f1b6a831c399e269772661''"

definition example_sha1 :: wstring where
  "example_sha1 = wstr ''da39a3ee5e6b4b0d3255bfef95601890afd80709''"

definition example_sumfile :: "wstring list" where
  "example_sumfile =
     [example_md5 @ wstr ''  b.txt'' @ [0x0A],
      [0x0A],
      example_sha1 @ wstr ''  a.TXT'' @ [0x0A],
      example_md5' @ wstr '' *b.txt'' @ [0x0A],
      example_md5 @ wstr ''  Sub/z'' @ [0x0A]]"

definition example_badfile :: "wstring list" where
  "example_badfile =
     [wstr ''checksums of the tree'' @ [0x0A],
      example_md5 @ wstr ''  b.txt'' @ [0x0A]]"







section \<open>Properties of the hexadecimal encoding\<close>

lemma nibble_cases:
  fixes n :: byte
  assumes "n \<le> 15"
  shows "n \<in> {0,1,2,3,4,5,6,7,8,9,10,11,12,13,14,15}"
proof -
  have "unat n < 16" using assms by (simp add: word_le_nat_alt)
  then have "unat n \<in> {0,1,2,3,4,5,6,7,8,9,10,11,12,13,14,15}" by simp arith
  then have "of_nat (unat n) \<in> (of_nat ` {0,1,2,3,4,5,6,7,8,9,10,11,12,13,14,15} :: byte set)"
    by (rule imageI)
  then show ?thesis by simp
qed

lemma FromHex_char_ToHex_nibble:
  assumes "n \<le> 15"
  shows "FromHex_char (ToHex_nibble lc n) = Some n"
proof -
  have "n \<in> {0,1,2,3,4,5,6,7,8,9,10,11,12,13,14,15}" using assms by (rule nibble_cases)
  then show ?thesis
    by (elim insertE emptyE; cases lc; simp add: FromHex_char_def ToHex_nibble_def)
qed

lemma hi_nibble_le: "drop_bit 4 (b :: byte) \<le> 15"
proof -
  have "unat b < 2 ^ 8" using unsigned_less [of b, where ?'a = nat] by simp
  then have "unat b div 16 < 16" by simp
  then have "unat (drop_bit 4 b) < 16" by (simp add: drop_bit_eq_div unat_div)
  then show ?thesis by (simp add: word_le_nat_alt)
qed

lemma lo_nibble_le: "(b :: byte) AND 0x0F \<le> 15"
  by (rule word_and_le1)

lemma nibbles_join: "drop_bit 4 (b :: byte) * 16 + (b AND 0x0F) = b"
proof -
  have "push_bit 4 (drop_bit 4 b) + take_bit 4 b = b" by (rule bits_ident)
  moreover have "take_bit 4 b = b AND 0x0F" by (simp add: take_bit_eq_mask mask_eq_exp_minus_1)
  ultimately show ?thesis by (simp add: push_bit_eq_mult)
qed

lemma FromHex_loop_ToHex:
  "FromHex_loop (ToHex lc data) buffer = (True, buffer @ data)"
  by (induction data arbitrary: buffer)
     (simp_all add: FromHex_char_ToHex_nibble hi_nibble_le lo_nibble_le nibbles_join)

lemma length_ToHex: "length (ToHex lc data) = 2 * length data"
  by (induction data) simp_all

lemma FromHex_loop_True_digits:
  "FromHex_loop s buffer = (True, out) \<Longrightarrow> even (length s) \<Longrightarrow> c \<in> set s \<Longrightarrow>
   FromHex_char c \<noteq> None"
  by (induction s buffer rule: FromHex_loop.induct) (auto split: option.splits)

lemma FromHex_char_None_iff:
  "FromHex_char c = None \<longleftrightarrow>
   \<not> ((0x30 \<le> c \<and> c \<le> 0x39) \<or> (0x61 \<le> c \<and> c \<le> 0x66) \<or> (0x41 \<le> c \<and> c \<le> 0x46))"
  by (simp add: FromHex_char_def)


text \<open>
  Claim C10. Decoding what \<open>ToHex\<close> produced from a byte array gives the byte array
  back, whatever the lowercase flag; and \<open>FromHex\<close> returns false and leaves the buffer
  empty on every string whose length is odd or that holds a character outside
  \<^verbatim>\<open>0-9\<close>, \<^verbatim>\<open>a-f\<close>, \<^verbatim>\<open>A-F\<close>.
\<close>

theorem hex_roundtrip:
  "FromHex (ToHex lc b) = (True, b) \<and>
   (odd (length s) \<or>
    (\<exists>c \<in> set s. \<not> ((0x30 \<le> c \<and> c \<le> 0x39) \<or> (0x61 \<le> c \<and> c \<le> 0x66) \<or> (0x41 \<le> c \<and> c \<le> 0x46)))
    \<longrightarrow> FromHex s = (False, []))"
proof (intro conjI impI)
  show "FromHex (ToHex lc b) = (True, b)"
    by (simp add: FromHex_def length_ToHex FromHex_loop_ToHex)
next
  assume bad: "odd (length s) \<or>
    (\<exists>c \<in> set s. \<not> ((0x30 \<le> c \<and> c \<le> 0x39) \<or> (0x61 \<le> c \<and> c \<le> 0x66) \<or> (0x41 \<le> c \<and> c \<le> 0x46)))"
  show "FromHex s = (False, [])"
  proof (cases "even (length s)")
    case False
    then show ?thesis by (simp add: FromHex_def odd_iff_mod_2_eq_one)
  next
    case True
    with bad obtain c where c: "c \<in> set s" "FromHex_char c = None"
      unfolding FromHex_char_None_iff by blast
    obtain ok out where r: "FromHex_loop s [] = (ok, out)" by (cases "FromHex_loop s []")
    have "\<not> ok" using FromHex_loop_True_digits [of s "[]" out c] r True c by auto
    with r True show ?thesis by (simp add: FromHex_def even_iff_mod_2_eq_zero)
  qed
qed

theorem hex_roundtrip_witness:
  "FromHex (ToHex True [0xAB, 0x07]) = (True, [0xAB, 0x07]) \<and>
   (\<exists>c \<in> set (wstr ''0g''). \<not> ((0x30 \<le> c \<and> c \<le> 0x39) \<or> (0x61 \<le> c \<and> c \<le> 0x66) \<or> (0x41 \<le> c \<and> c \<le> 0x46))) \<and>
   FromHex (wstr ''0g'') = (False, [])"
  using hex_roundtrip [of True "[0xAB, 0x07]" "wstr ''0g''"]
  by (simp add: wstr_def)

section \<open>Properties of the comparisons\<close>

lemma wcsicmp_values: "wcsicmp a b = -1 \<or> wcsicmp a b = 0 \<or> wcsicmp a b = 1"
  by (induction a b rule: wcsicmp.induct) auto

lemma wcsicmp_swap: "wcsicmp b a = - wcsicmp a b"
  by (induction a b rule: wcsicmp.induct) auto

lemma wcsicmp_eq_0_iff: "wcsicmp a b = 0 \<longleftrightarrow> map towlower a = map towlower b"
  by (induction a b rule: wcsicmp.induct) auto

lemma wcsicmp_refl: "wcsicmp a a = 0"
  by (simp add: wcsicmp_eq_0_iff)

lemma wcsicmp_le_trans:
  "wcsicmp a b \<le> 0 \<Longrightarrow> wcsicmp b c \<le> 0 \<Longrightarrow> wcsicmp a c \<le> 0"
proof (induction a b arbitrary: c rule: wcsicmp.induct)
  case 1
  then show ?case by simp
next
  case (2 y ys)
  then show ?case by (cases c) auto
next
  case (3 x xs)
  then show ?case by simp
next
  case (4 x xs y ys)
  show ?case
  proof (cases c)
    case Nil
    with 4 show ?thesis by simp
  next
    case (Cons z zs)
    with 4 show ?thesis by (auto split: if_splits)
  qed
qed

lemma wcsicmp_less_trans:
  "wcsicmp a b < 0 \<Longrightarrow> wcsicmp b c < 0 \<Longrightarrow> wcsicmp a c < 0"
proof (induction a b arbitrary: c rule: wcsicmp.induct)
  case 1
  then show ?case by simp
next
  case (2 y ys)
  then show ?case by (cases c) auto
next
  case (3 x xs)
  then show ?case by simp
next
  case (4 x xs y ys)
  show ?case
  proof (cases c)
    case Nil
    with 4 show ?thesis by simp
  next
    case (Cons z zs)
    with 4 show ?thesis by (auto split: if_splits)
  qed
qed

lemma wcsicmp_append_same: "wcsicmp (p @ a) (p @ b) = wcsicmp a b"
  by (induction p) simp_all

lemma towlower_backslash: "towlower c = 0x5C \<longleftrightarrow> c = 0x5C"
proof
  assume "c = 0x5C" then show "towlower c = 0x5C" by (simp add: towlower_def)
next
  assume a: "towlower c = 0x5C"
  show "c = 0x5C"
  proof (cases "0x41 \<le> c \<and> c \<le> 0x5A")
    case False
    with a show ?thesis by (simp add: towlower_def)
  next
    case True
    then have "unat c \<le> 0x5A" by (simp add: word_le_nat_alt)
    moreover from True a have "c + 0x20 = 0x5C" by (simp add: towlower_def)
    then have "c = 0x5C - 0x20" by (metis add_diff_cancel_right')
    then have "unat c = 0x3C" by simp
    moreover from True have "0x41 \<le> unat c" by (simp add: word_le_nat_alt)
    ultimately show ?thesis by simp
  qed
qed

lemma countPathDepth_towlower:
  "countPathDepth (map towlower p) = countPathDepth p"
  by (induction p) (simp_all add: countPathDepth_def towlower_backslash)

lemma countPathDepth_folded:
  "map towlower p1 = map towlower p2 \<Longrightarrow> countPathDepth p1 = countPathDepth p2"
  by (metis countPathDepth_towlower)

text \<open>
  Claim C3, as amended. The order of \<^verbatim>\<open>SortSumFile\<close> (more separators first, then
  \<^verbatim>\<open>_wcsicmp\<close>) is irreflexive and transitive. Of two paths that still differ when the
  letters \<^verbatim>\<open>A\<close> to \<^verbatim>\<open>Z\<close> are folded to lower case exactly one precedes the other. Two
  paths that are equal once these letters are folded, which differ in the case of the
  letters \<^verbatim>\<open>A\<close> to \<^verbatim>\<open>Z\<close> at most, are not ordered: neither precedes the other.
\<close>

theorem SortSumFile_less_order:
  "\<not> SortSumFile_less p1 p1 \<and>
   (SortSumFile_less p1 p2 \<and> SortSumFile_less p2 p3 \<longrightarrow> SortSumFile_less p1 p3) \<and>
   (map towlower p1 \<noteq> map towlower p2 \<longrightarrow>
      (SortSumFile_less p1 p2 \<and> \<not> SortSumFile_less p2 p1)
      \<or> (SortSumFile_less p2 p1 \<and> \<not> SortSumFile_less p1 p2)) \<and>
   (map towlower p1 = map towlower p2 \<longrightarrow>
      \<not> SortSumFile_less p1 p2 \<and> \<not> SortSumFile_less p2 p1)"
proof (intro conjI impI)
  show "\<not> SortSumFile_less p1 p1"
    by (simp add: SortSumFile_less_def wcsicmp_refl)
next
  assume "SortSumFile_less p1 p2 \<and> SortSumFile_less p2 p3"
  then show "SortSumFile_less p1 p3"
    using wcsicmp_less_trans [of p1 p2 p3]
    by (auto simp: SortSumFile_less_def Let_def split: if_splits)
next
  assume "map towlower p1 \<noteq> map towlower p2"
  then have "wcsicmp p1 p2 \<noteq> 0" by (simp add: wcsicmp_eq_0_iff)
  then show "(SortSumFile_less p1 p2 \<and> \<not> SortSumFile_less p2 p1)
      \<or> (SortSumFile_less p2 p1 \<and> \<not> SortSumFile_less p1 p2)"
    using wcsicmp_swap [of p2 p1]
    by (auto simp: SortSumFile_less_def Let_def)
next
  assume e: "map towlower p1 = map towlower p2"
  then have d: "countPathDepth p1 = countPathDepth p2" by (rule countPathDepth_folded)
  from e have "wcsicmp p1 p2 = 0" "wcsicmp p2 p1 = 0" by (simp_all add: wcsicmp_eq_0_iff)
  with d show "\<not> SortSumFile_less p1 p2" "\<not> SortSumFile_less p2 p1"
    by (simp_all add: SortSumFile_less_def)
qed

theorem SortSumFile_less_order_witness:
  "SortSumFile_less (wstr ''dir'' @ [0x5C] @ wstr ''b.txt'') (wstr ''A.txt'') \<and>
   SortSumFile_less (wstr ''A.txt'') (wstr ''b.txt'') \<and>
   SortSumFile_less (wstr ''dir'' @ [0x5C] @ wstr ''b.txt'') (wstr ''b.txt'') \<and>
   map towlower (wstr ''dir'' @ [0x5C] @ wstr ''b.txt'') \<noteq> map towlower (wstr ''A.txt'') \<and>
   \<not> SortSumFile_less (wstr ''A.txt'') (wstr ''dir'' @ [0x5C] @ wstr ''b.txt'') \<and>
   map towlower (wstr ''Dir'' @ [0x5C] @ wstr ''A.TXT'') = map towlower (wstr ''dir'' @ [0x5C] @ wstr ''a.txt'') \<and>
   \<not> SortSumFile_less (wstr ''Dir'' @ [0x5C] @ wstr ''A.TXT'') (wstr ''dir'' @ [0x5C] @ wstr ''a.txt'') \<and>
   \<not> SortSumFile_less (wstr ''dir'' @ [0x5C] @ wstr ''a.txt'') (wstr ''Dir'' @ [0x5C] @ wstr ''A.TXT'')"
proof -
  have h1: "SortSumFile_less (wstr ''dir'' @ [0x5C] @ wstr ''b.txt'') (wstr ''A.txt'')
            \<and> SortSumFile_less (wstr ''A.txt'') (wstr ''b.txt'')"
    by code_simp
  have h2: "map towlower (wstr ''dir'' @ [0x5C] @ wstr ''b.txt'') \<noteq> map towlower (wstr ''A.txt'')"
    by code_simp
  have h3: "map towlower (wstr ''Dir'' @ [0x5C] @ wstr ''A.TXT'')
              = map towlower (wstr ''dir'' @ [0x5C] @ wstr ''a.txt'')"
    by code_simp
  from SortSumFile_less_order
         [of "wstr ''dir'' @ [0x5C] @ wstr ''b.txt''" "wstr ''A.txt''" "wstr ''b.txt''"] h1 h2
  have a: "SortSumFile_less (wstr ''dir'' @ [0x5C] @ wstr ''b.txt'') (wstr ''b.txt'') \<and>
           \<not> SortSumFile_less (wstr ''A.txt'') (wstr ''dir'' @ [0x5C] @ wstr ''b.txt'')"
    by blast
  from SortSumFile_less_order
         [of "wstr ''Dir'' @ [0x5C] @ wstr ''A.TXT''" "wstr ''dir'' @ [0x5C] @ wstr ''a.txt''"] h3
  have b: "\<not> SortSumFile_less (wstr ''Dir'' @ [0x5C] @ wstr ''A.TXT'') (wstr ''dir'' @ [0x5C] @ wstr ''a.txt'') \<and>
           \<not> SortSumFile_less (wstr ''dir'' @ [0x5C] @ wstr ''a.txt'') (wstr ''Dir'' @ [0x5C] @ wstr ''A.TXT'')"
    by blast
  from h1 h2 h3 a b show ?thesis by blast
qed

text \<open>
  The claim as it was stated fails: \<^verbatim>\<open>Readme.txt\<close> and \<^verbatim>\<open>readme.txt\<close> are distinct
  paths and neither precedes the other.
\<close>

theorem SortSumFile_less_counterexample:
  "wstr ''Readme.txt'' \<noteq> wstr ''readme.txt'' \<and>
   \<not> SortSumFile_less (wstr ''Readme.txt'') (wstr ''readme.txt'') \<and>
   \<not> SortSumFile_less (wstr ''readme.txt'') (wstr ''Readme.txt'')"
  by code_simp

section \<open>Properties of the hash engines\<close>

lemma GetHash_GetID_class:
  "c = Streebog \<longrightarrow> U \<Longrightarrow> GetHash U (GetID_class c) = Some (new_Hash c)"
  by (cases c) (simp_all add: GetHash_def wstr_def towlower_def)

lemma new_Hash_eq_iff: "new_Hash (hash_class h) = h \<longleftrightarrow> m_ctx h = []"
  by (cases h) (auto simp: new_Hash_def)

text \<open>
  Claim C2, as amended. \<open>Clone\<close> gives a newly initialised engine of the class of its
  source, whatever the source has absorbed: the digest of the clone after the bytes
  \<open>B\<close> is the digest of \<open>B\<close> alone, while the digest of the source after \<open>B\<close> is that of
  all it has absorbed followed by \<open>B\<close>. The clone is in the state of its source exactly
  when the source has absorbed nothing.
\<close>

theorem Clone_fresh:
  assumes "hash_class h = Streebog \<longrightarrow> U"
  shows "Clone U h = Some (new_Hash (hash_class h)) \<and>
         Final prim (Update (new_Hash (hash_class h)) B) = prim (hash_class h) B \<and>
         Final prim (Update h B) = prim (hash_class h) (m_ctx h @ B) \<and>
         (Clone U h = Some h \<longleftrightarrow> m_ctx h = [])"
  using GetHash_GetID_class [OF assms] new_Hash_eq_iff [of h]
  by (simp add: Clone_def GetID_def Final_def Update_def new_Hash_def)

theorem Clone_fresh_witness:
  "Clone True (Update (new_Hash Streebog) [1, 2]) = Some (new_Hash Streebog) \<and>
   Final (\<lambda>c bs. bs) (Update (new_Hash Streebog) [3]) = [3] \<and>
   Final (\<lambda>c bs. bs) (Update (Update (new_Hash Streebog) [1, 2]) [3]) = [1, 2, 3] \<and>
   Clone True (Update (new_Hash Streebog) [1, 2]) \<noteq> Some (Update (new_Hash Streebog) [1, 2]) \<and>
   Clone True (new_Hash Streebog) = Some (new_Hash Streebog)"
  using Clone_fresh [of "Update (new_Hash Streebog) [1, 2]" True "\<lambda>c bs. bs" "[3]"]
    Clone_fresh [of "new_Hash Streebog" True "\<lambda>c bs. bs" "[3]"]
  by (simp add: Update_def new_Hash_def)

text \<open>
  The claim as it was stated fails: the clone of an engine that has absorbed one byte
  is the initial engine, not the engine that was cloned.
\<close>

theorem Clone_state_counterexample:
  "Clone True (Update (new_Hash Sha256Cng) [0x61]) = Some (new_Hash Sha256Cng) \<and>
   new_Hash Sha256Cng \<noteq> Update (new_Hash Sha256Cng) [0x61]"
  by (simp add: Clone_def GetID_def GetHash_def Update_def new_Hash_def wstr_def towlower_def)

text \<open>\<open>CloneHashes\<close> does this for every engine of the vector.\<close>

lemma CloneHashes_fresh:
  assumes "\<And>h. h \<in> set pHashes \<Longrightarrow> hash_class h = Streebog \<Longrightarrow> U"
  shows "CloneHashes U pHashes [] = map (\<lambda>h. Some (new_Hash (hash_class h))) pHashes"
proof -
  have "Clone U h = Some (new_Hash (hash_class h))" if "h \<in> set pHashes" for h
  proof -
    have "hash_class h = Streebog \<longrightarrow> U" using assms that by blast
    then show ?thesis by (simp add: Clone_def GetID_def GetHash_GetID_class)
  qed
  then show ?thesis by (simp add: CloneHashes_def)
qed

section \<open>Properties of the algorithm lists\<close>

lemma spec_segments_not_Nil: "spec_segments s \<noteq> []"
  by (induction s) (auto split: list.splits)

lemma spec_segments_no_comma: "0x2C \<notin> set s \<Longrightarrow> spec_segments s = [s]"
  by (induction s) auto

lemma spec_segments_comma:
  "0x2C \<notin> set a \<Longrightarrow> spec_segments (a @ 0x2C # b) = a # spec_segments b"
  by (induction a) auto

lemma find_first_of_None:
  "find_first_of s c pos = None \<Longrightarrow> c \<notin> set (drop pos s)"
proof -
  assume a: "find_first_of s c pos = None"
  let ?t = "drop pos s"
  have "\<not> pos + length (takeWhile (\<lambda>x. x \<noteq> c) ?t) < length s"
    using a by (simp add: find_first_of_def Let_def split: if_splits)
  then have "length (takeWhile (\<lambda>x. x \<noteq> c) ?t) \<ge> length ?t" by simp
  then have "takeWhile (\<lambda>x. x \<noteq> c) ?t = ?t"
    by (metis length_takeWhile_le le_antisym takeWhile_eq_take take_all_iff)
  then show ?thesis
    by (metis (mono_tags, lifting) takeWhile_eq_all_conv)
qed

lemma find_first_of_Some:
  assumes "find_first_of s c pos = Some p"
  shows "\<exists>a b. drop pos s = a @ c # b \<and> c \<notin> set a \<and> p = pos + length a
           \<and> drop (p + 1) s = b \<and> substr s pos (p - pos) = a \<and> p < length s"
proof -
  let ?t = "drop pos s"
  let ?a = "takeWhile (\<lambda>x. x \<noteq> c) ?t"
  let ?d = "dropWhile (\<lambda>x. x \<noteq> c) ?t"
  have p: "p = pos + length ?a" and lt: "pos + length ?a < length s"
    using assms by (auto simp: find_first_of_def Let_def split: if_splits)
  have split: "?a @ ?d = ?t" by (rule takeWhile_dropWhile_id)
  have "length ?a < length ?t" using lt by simp
  then have "?d \<noteq> []" using split by (metis append_Nil2 less_irrefl)
  then obtain x b where d: "?d = x # b" by (cases ?d) auto
  have "\<not> (hd ?d \<noteq> c)" using \<open>?d \<noteq> []\<close> by (rule hd_dropWhile)
  with d have "x = c" by simp
  with d split have t: "?t = ?a @ c # b" by simp
  have notin: "c \<notin> set ?a" by (auto dest: set_takeWhileD)
  have "drop (p + 1) s = drop (length ?a + 1) ?t" by (simp add: p add.commute)
  also have "\<dots> = drop (length ?a + 1) (?a @ c # b)" using t by simp
  also have "\<dots> = b" by simp
  finally have dr: "drop (p + 1) s = b" .
  have "substr s pos (p - pos) = take (length ?a) ?t" by (simp add: substr_def p)
  also have "\<dots> = take (length ?a) (?a @ c # b)" using t by simp
  also have "\<dots> = ?a" by simp
  finally have sub: "substr s pos (p - pos) = ?a" .
  from t notin p dr sub lt show ?thesis by blast
qed


lemma IsHashId_Nil: "\<not> IsHashId []"
  by (simp add: IsHashId_def wstr_def)

declare GetHashes_loop.simps [simp del] IsHashIdCombination_loop.simps [simp del]

lemma GetHashes_loop_segments:
  "pos < length s \<Longrightarrow>
   GetHashes_loop U s pos res =
     (if list_all IsHashId (spec_segments (drop pos s))
      then res @ List.map_filter (GetHash U) (spec_segments (drop pos s)) else [])"
proof (induction U s pos res rule: GetHashes_loop.induct)
  case (1 U s pos res)
  let ?t = "drop pos s"
  show ?case
  proof (cases "find_first_of s 0x2C pos")
    case None
    then have "0x2C \<notin> set ?t" by (rule find_first_of_None)
    then have seg: "spec_segments ?t = [?t]" by (rule spec_segments_no_comma)
    have sub: "substr s pos (length s - pos) = ?t" by (simp add: substr_def)
    show ?thesis
      using "1.prems" None seg sub
      by (subst GetHashes_loop.simps) (simp add: Let_def map_filter_simps split: option.splits)
  next
    case (Some p)
    from find_first_of_Some [OF Some] obtain a b where
      t: "?t = a @ 0x2C # b" and a: "0x2C \<notin> set a" and p: "p = pos + length a"
      and b: "drop (p + 1) s = b" and sub: "substr s pos (p - pos) = a" and lt: "p < length s"
      by blast
    have seg: "spec_segments ?t = a # spec_segments b"
      using t a by (simp add: spec_segments_comma)
    show ?thesis
    proof (cases "IsHashId a")
      case False
      then show ?thesis
        using "1.prems" Some seg sub lt
        by (subst GetHashes_loop.simps) (simp add: Let_def)
    next
      case True
      let ?res = "case GetHash U a of Some hash \<Rightarrow> res @ [hash] | None \<Rightarrow> res"
      show ?thesis
      proof (cases "p + 1 = length s")
        case True
        then have "b = []" using b by simp
        then have "\<not> list_all IsHashId (spec_segments b)" by (simp add: IsHashId_Nil)
        then show ?thesis
          using "1.prems" Some seg sub lt True \<open>IsHashId a\<close>
          by (subst GetHashes_loop.simps) (simp add: Let_def)
      next
        case False
        then have lt': "p + 1 < length s" using lt by simp
        have IH: "GetHashes_loop U s (p + 1) ?res =
          (if list_all IsHashId (spec_segments b)
           then ?res @ List.map_filter (GetHash U) (spec_segments b) else [])"
          using "1.IH" [OF refl "1.prems" refl refl _ refl, of ] Some sub True lt lt' False b
          by simp
        have "GetHashes_loop U s pos res = GetHashes_loop U s (p + 1) ?res"
          using "1.prems" Some sub lt True False
          by (subst GetHashes_loop.simps) (simp add: Let_def)
        then show ?thesis
          using IH seg True by (simp add: map_filter_simps split: option.splits)
      qed
    qed
  qed
qed


lemma GetHashes_segments:
  "GetHashes U s =
     (if list_all IsHashId (spec_segments s)
      then List.map_filter (GetHash U) (spec_segments s) else [])"
proof (cases s)
  case Nil
  then show ?thesis
    by (simp add: GetHashes_def GetHashes_loop.simps IsHashId_Nil)
next
  case (Cons c cs)
  then have "0 < length s" by simp
  from GetHashes_loop_segments [OF this, of U "[]"] show ?thesis
    by (simp add: GetHashes_def)
qed

lemma IsHashId_GetHash: "IsHashId seg \<Longrightarrow> \<exists>h. GetHash True seg = Some h"
  by (auto simp: IsHashId_def GetHash_def)

lemma GetHash_IsHashId: "GetHash U seg = Some h \<Longrightarrow> IsHashId seg"
  by (auto simp: IsHashId_def GetHash_def split: if_splits)

lemma map_filter_all_Some:
  "\<forall>x \<in> set xs. \<exists>y. f x = Some y \<Longrightarrow> map Some (List.map_filter f xs) = map f xs"
  by (induction xs) (auto simp: map_filter_simps)

lemma spec_segments_snoc_comma: "spec_segments (s @ [0x2C]) = spec_segments s @ [[]]"
proof (induction s)
  case Nil
  show ?case by simp
next
  case (Cons c cs)
  obtain seg segs where "spec_segments cs = seg # segs"
    using spec_segments_not_Nil [of cs] by (cases "spec_segments cs") auto
  with Cons show ?case by simp
qed

lemma spec_segments_trailing_comma: "[] \<in> set (spec_segments (s @ [0x2C]))"
  by (simp add: spec_segments_snoc_comma)

text \<open>
  Claim C6. In a build with \<^verbatim>\<open>USE_STREEBOG\<close>, \<open>GetHashes\<close> returns engines (a non-empty
  vector) exactly when every segment between the commas is non-empty and is an
  identifier that \<open>IsHashId\<close> knows; the engines are then those of the segments, one for
  each and in their order; and a string that ends with a comma gives the empty vector.
\<close>

theorem GetHashes_parse_spec:
  assumes "U"
  shows "(GetHashes U s \<noteq> [] \<longleftrightarrow> (\<forall>seg \<in> set (spec_segments s). seg \<noteq> [] \<and> IsHashId seg)) \<and>
         (GetHashes U s \<noteq> [] \<longrightarrow> map Some (GetHashes U s) = map (GetHash U) (spec_segments s)) \<and>
         GetHashes U (s @ [0x2C]) = []"
proof -
  have U: "U = True" using assms by simp
  have some: "list_all IsHashId (spec_segments s) \<Longrightarrow>
      map Some (List.map_filter (GetHash U) (spec_segments s)) = map (GetHash U) (spec_segments s)"
    unfolding U by (rule map_filter_all_Some) (auto simp: list_all_iff dest: IsHashId_GetHash)
  have ne: "list_all IsHashId (spec_segments s) \<Longrightarrow>
      List.map_filter (GetHash U) (spec_segments s) \<noteq> []"
  proof
    assume "list_all IsHashId (spec_segments s)" and e: "List.map_filter (GetHash U) (spec_segments s) = []"
    then have "map (GetHash U) (spec_segments s) = []" using some by simp
    then show False by (simp add: spec_segments_not_Nil)
  qed
  have all: "list_all IsHashId (spec_segments s) \<longleftrightarrow>
      (\<forall>seg \<in> set (spec_segments s). seg \<noteq> [] \<and> IsHashId seg)"
    using IsHashId_Nil by (auto simp: list_all_iff)
  have 1: "GetHashes U s \<noteq> [] \<longleftrightarrow> (\<forall>seg \<in> set (spec_segments s). seg \<noteq> [] \<and> IsHashId seg)"
    using ne all by (simp add: GetHashes_segments)
  have 2: "GetHashes U s \<noteq> [] \<longrightarrow> map Some (GetHashes U s) = map (GetHash U) (spec_segments s)"
    using some by (simp add: GetHashes_segments)
  have "\<not> list_all IsHashId (spec_segments (s @ [0x2C]))"
    using spec_segments_trailing_comma [of s] IsHashId_Nil by (auto simp: list_all_iff)
  then have 3: "GetHashes U (s @ [0x2C]) = []" by (simp add: GetHashes_segments)
  from 1 2 3 show ?thesis by blast
qed

theorem GetHashes_parse_spec_witness:
  "GetHashes True (wstr ''SHA1,md5'') = [new_Hash Sha1Cng, new_Hash Md5Cng] \<and>
   list_all (\<lambda>seg. seg \<noteq> [] \<and> IsHashId seg) (spec_segments (wstr ''SHA1,md5'')) \<and>
   map Some (GetHashes True (wstr ''SHA1,md5'')) = map (GetHash True) (spec_segments (wstr ''SHA1,md5'')) \<and>
   GetHashes True (wstr ''SHA1,md5'' @ [0x2C]) = []"
proof -
  have v: "GetHashes True (wstr ''SHA1,md5'') = [new_Hash Sha1Cng, new_Hash Md5Cng]"
    by code_simp
  then have "GetHashes True (wstr ''SHA1,md5'') \<noteq> []" by simp
  with GetHashes_parse_spec [of True "wstr ''SHA1,md5''"] v show ?thesis
    by (simp add: list_all_iff)
qed

text \<open>
  Without \<^verbatim>\<open>USE_STREEBOG\<close> the identifier \<^verbatim>\<open>Streebog\<close> still passes \<open>IsHashId\<close> but has
  no engine, and \<open>GetHashes\<close> leaves it out.
\<close>

lemma GetHashes_without_Streebog:
  "GetHashes False (wstr ''SHA1,Streebog'') = [new_Hash Sha1Cng]"
  by code_simp

text \<open>
  \<open>IsHashIdCombination\<close>, by which \<^verbatim>\<open>_tmain\<close> recognises an algorithm list among its
  arguments, accepts the same strings as \<open>GetHashes\<close> and the empty string besides.
\<close>

lemma IsHashIdCombination_loop_segments:
  "pos < length s \<Longrightarrow>
   IsHashIdCombination_loop s pos = list_all IsHashId (spec_segments (drop pos s))"
proof (induction s pos rule: IsHashIdCombination_loop.induct)
  case (1 s pos)
  let ?t = "drop pos s"
  show ?case
  proof (cases "find_first_of s 0x2C pos")
    case None
    then have "0x2C \<notin> set ?t" by (rule find_first_of_None)
    then have seg: "spec_segments ?t = [?t]" by (rule spec_segments_no_comma)
    have sub: "substr s pos (length s - pos) = ?t" by (simp add: substr_def)
    show ?thesis
      using "1.prems" None seg sub
      by (subst IsHashIdCombination_loop.simps) (simp add: Let_def)
  next
    case (Some p)
    from find_first_of_Some [OF Some] obtain a b where
      t: "?t = a @ 0x2C # b" and a: "0x2C \<notin> set a" and p: "p = pos + length a"
      and b: "drop (p + 1) s = b" and sub: "substr s pos (p - pos) = a" and lt: "p < length s"
      by blast
    have seg: "spec_segments ?t = a # spec_segments b"
      using t a by (simp add: spec_segments_comma)
    show ?thesis
    proof (cases "IsHashId a")
      case False
      then show ?thesis
        using "1.prems" Some seg sub lt
        by (subst IsHashIdCombination_loop.simps) (simp add: Let_def)
    next
      case True
      show ?thesis
      proof (cases "p + 1 = length s")
        case True
        then have "b = []" using b by simp
        then have "\<not> list_all IsHashId (spec_segments b)" by (simp add: IsHashId_Nil)
        then show ?thesis
          using "1.prems" Some seg sub lt True \<open>IsHashId a\<close>
          by (subst IsHashIdCombination_loop.simps) (simp add: Let_def)
      next
        case False
        then have lt': "p + 1 < length s" using lt by simp
        have IH: "IsHashIdCombination_loop s (p + 1) = list_all IsHashId (spec_segments b)"
          using "1.IH" [OF refl "1.prems" refl refl] Some sub True lt lt' False b
          by simp
        have "IsHashIdCombination_loop s pos = IsHashIdCombination_loop s (p + 1)"
          using "1.prems" Some sub lt True False
          by (subst IsHashIdCombination_loop.simps) (simp add: Let_def)
        then show ?thesis
          using IH seg True by simp
      qed
    qed
  qed
qed

lemma IsHashIdCombination_segments:
  "IsHashIdCombination s \<longleftrightarrow> s = [] \<or> list_all IsHashId (spec_segments s)"
proof (cases s)
  case Nil
  then show ?thesis
    by (simp add: IsHashIdCombination_def IsHashIdCombination_loop.simps)
next
  case (Cons c cs)
  then have "0 < length s" by simp
  from IsHashIdCombination_loop_segments [OF this] Cons show ?thesis
    by (simp add: IsHashIdCombination_def)
qed

section \<open>Properties of the checksum parser\<close>

lemma ParseSumFile_line_fields:
  "ParseSumFile_line dir norm d szLine =
     (case ParseSumFile_fields dir norm szLine of
        None \<Rightarrow> None
      | Some (digest, entryName) \<Rightarrow>
          if (d \<noteq> 0 \<and> d = length digest) \<or> (d = 0 \<and> IsHashSize (int (length digest)))
          then Some (digest, entryName) else None)"
proof (cases "wcschr szLine 0x20")
  case None
  then show ?thesis by (simp add: ParseSumFile_line_def ParseSumFile_fields_def)
next
  case (Some p)
  obtain ok digest where h: "FromHex (take p szLine) = (ok, digest)"
    by (cases "FromHex (take p szLine)")
  define ptr0 where "ptr0 = skip_spaces szLine (p + 1)"
  define ptr where "ptr = (if ptr0 \<noteq> length szLine - 1 \<and> char_at szLine ptr0 = 0x2A then ptr0 + 1 else ptr0)"
  define name0 where "name0 = map (\<lambda>c. if c = 0x2F then 0x5C else c) (drop ptr szLine)"
  define name where "name = (if norm \<and> length dir \<noteq> 0
                                \<and> (length name0 < length dir
                                     \<or> wcsicmp dir (substr name0 0 (length dir)) \<noteq> 0)
                             then dir @ name0 else name0)"
  have L: "ParseSumFile_line dir norm d szLine =
    (if ptr \<noteq> length szLine - 1 then
       (if ok then
          (if (d \<noteq> 0 \<and> d = length digest) \<or> (d = 0 \<and> IsHashSize (int (length digest)))
           then Some (digest, name) else None)
        else None)
     else None)"
    unfolding ParseSumFile_line_def Some option.case Let_def h
      ptr0_def [symmetric] ptr_def [symmetric] name0_def [symmetric] name_def [symmetric]
    by (cases ok) (simp_all only: prod.case bool.case if_True if_False)
  have R: "ParseSumFile_fields dir norm szLine =
    (if ptr \<noteq> length szLine - 1 then
       (if ok then Some (digest, name) else None)
     else None)"
    unfolding ParseSumFile_fields_def Some option.case Let_def h
      ptr0_def [symmetric] ptr_def [symmetric] name0_def [symmetric] name_def [symmetric]
    by (cases ok) (simp_all only: prod.case bool.case if_True if_False)
  show ?thesis unfolding L R by simp
qed

lemma wcschr_Nil: "wcschr [] c = None"
  by (simp add: wcschr_def find_first_of_def)

lemma ParseSumFile_line_Nil: "ParseSumFile_line dir norm d [] = None"
  by (simp add: ParseSumFile_line_def wcschr_Nil)

lemma ParseSumFile_line_SomeD:
  assumes "ParseSumFile_line dir norm d szLine = Some (digest, entryName)"
  shows "(d \<noteq> 0 \<longrightarrow> length digest = d) \<and> (d = 0 \<longrightarrow> IsHashSize (int (length digest)))"
  using assms unfolding ParseSumFile_line_fields
  by (cases "ParseSumFile_fields dir norm szLine") (auto split: if_splits)

lemma ParseSumFile_line_length:
  assumes "ParseSumFile_line dir norm d szLine = Some (digest, entryName)"
  shows "length digest \<noteq> 0"
  using ParseSumFile_line_SomeD [OF assms] by (auto simp: IsHashSize_def)

lemma ParseSumFile_line_fixed:
  assumes "ParseSumFile_line dir norm 0 szLine = Some (digest, entryName)"
  shows "ParseSumFile_line dir norm d szLine =
           (if d = 0 \<or> d = length digest then Some (digest, entryName) else None)"
  using assms unfolding ParseSumFile_line_fields
  by (cases "ParseSumFile_fields dir norm szLine") (auto split: if_splits)

lemma ParseSumFile_line_None_0:
  assumes "ParseSumFile_line dir norm 0 szLine = None" "IsHashSize (int d) \<or> d = 0"
  shows "ParseSumFile_line dir norm d szLine = None"
  using assms unfolding ParseSumFile_line_fields
  by (cases "ParseSumFile_fields dir norm szLine") (auto split: if_splits)

lemma ParseSumFile_line_Some_0:
  assumes "ParseSumFile_line dir norm d szLine = Some r" "IsHashSize (int d) \<or> d = 0"
  shows "ParseSumFile_line dir norm 0 szLine = Some r"
  using assms unfolding ParseSumFile_line_fields
  by (cases "ParseSumFile_fields dir norm szLine") (auto split: if_splits)

lemma find_append_list:
  "List.find P (xs @ ys) = (case List.find P xs of None \<Rightarrow> List.find P ys | Some x \<Rightarrow> Some x)"
  by (induction xs) auto

lemma map_filter_append_list:
  "List.map_filter f (xs @ ys) = List.map_filter f xs @ List.map_filter f ys"
  by (simp add: List.map_filter_def)

lemma map_filter_cong_list:
  "(\<And>x. x \<in> set xs \<Longrightarrow> f x = g x) \<Longrightarrow> List.map_filter f xs = List.map_filter g xs"
  by (induction xs) (auto split: option.splits)

lemma fixed_digest_len_None:
  "List.find (\<lambda>line. ParseSumFile_line dir norm 0 (chomp line) \<noteq> None) lines = None \<Longrightarrow>
   fixed_digest_len dir norm lines = 0"
  by (simp add: fixed_digest_len_def)

lemma fixed_digest_len_Some:
  assumes "List.find (\<lambda>line. ParseSumFile_line dir norm 0 (chomp line) \<noteq> None) lines = Some line"
  shows "\<exists>digest entryName. ParseSumFile_line dir norm 0 (chomp line) = Some (digest, entryName)
           \<and> fixed_digest_len dir norm lines = length digest
           \<and> IsHashSize (int (length digest)) \<and> length digest \<noteq> 0"
proof -
  from assms have "ParseSumFile_line dir norm 0 (chomp line) \<noteq> None"
    by (auto simp: find_Some_iff)
  then obtain digest entryName where
    p: "ParseSumFile_line dir norm 0 (chomp line) = Some (digest, entryName)" by auto
  from ParseSumFile_line_SomeD [OF p] ParseSumFile_line_length [OF p] assms p
  show ?thesis by (simp add: fixed_digest_len_def)
qed

lemma fixed_digest_len_size:
  "fixed_digest_len dir norm lines = 0 \<or> IsHashSize (int (fixed_digest_len dir norm lines))"
proof (cases "List.find (\<lambda>line. ParseSumFile_line dir norm 0 (chomp line) \<noteq> None) lines")
  case None
  then show ?thesis by (simp add: fixed_digest_len_None)
next
  case (Some line)
  from fixed_digest_len_Some [OF Some] show ?thesis by auto
qed

lemma fixed_digest_len_snoc:
  "fixed_digest_len dir norm (pre @ [line]) =
     (if fixed_digest_len dir norm pre \<noteq> 0 then fixed_digest_len dir norm pre
      else (case ParseSumFile_line dir norm 0 (chomp line) of
              None \<Rightarrow> 0 | Some (digest, entryName) \<Rightarrow> length digest))"
proof (cases "List.find (\<lambda>line. ParseSumFile_line dir norm 0 (chomp line) \<noteq> None) pre")
  case None
  then have "fixed_digest_len dir norm pre = 0" by (rule fixed_digest_len_None)
  then show ?thesis
    using None by (auto simp: fixed_digest_len_def find_append_list split: option.splits)
next
  case (Some l)
  from fixed_digest_len_Some [OF Some] have "fixed_digest_len dir norm pre \<noteq> 0" by auto
  then show ?thesis
    using Some by (simp add: fixed_digest_len_def find_append_list)
qed

lemma fixed_digest_len_append:
  "fixed_digest_len dir norm pre \<noteq> 0 \<Longrightarrow>
   fixed_digest_len dir norm (pre @ suf) = fixed_digest_len dir norm pre"
proof (cases "List.find (\<lambda>line. ParseSumFile_line dir norm 0 (chomp line) \<noteq> None) pre")
  case None
  assume "fixed_digest_len dir norm pre \<noteq> 0"
  with None show ?thesis by (simp add: fixed_digest_len_None)
next
  case (Some l)
  then show ?thesis by (simp add: fixed_digest_len_def find_append_list)
qed

lemma ParseSumFile_step_eq:
  "\<not> bFailed st \<Longrightarrow>
   ParseSumFile_step dir norm st line =
     (if chomp line = [] then st\<lparr>lineNumber := lineNumber st + 1\<rparr>
      else
        (case ParseSumFile_line dir norm (digestLen st) (chomp line) of
           Some (digest, entryName) \<Rightarrow>
             st\<lparr>lineNumber := lineNumber st + 1, digestLen := length digest,
                digestList := map_index (digestList st) entryName (\<lambda>e. e\<lparr>m_digest := digest\<rparr>),
                bFailed := False\<rparr>
         | None \<Rightarrow>
             if lineNumber st + 1 > 1
             then st\<lparr>lineNumber := lineNumber st + 1,
                     skippedLines := skippedLines st @ [lineNumber st + 1], bFailed := False\<rparr>
             else st\<lparr>lineNumber := lineNumber st + 1, bFailed := True\<rparr>))"
  by (simp add: ParseSumFile_step_def Let_def split: option.splits)

lemma ParseSumFile_step_failed: "bFailed st \<Longrightarrow> ParseSumFile_step dir norm st line = st"
  by (simp add: ParseSumFile_step_def)

lemma foldl_step_failed:
  "bFailed st \<Longrightarrow> foldl (ParseSumFile_step dir norm) st lines = st"
  by (induction lines) (simp_all add: ParseSumFile_step_failed)

lemma ParseSumFile_loop_foldl:
  "\<not> bFailed st \<Longrightarrow>
   ParseSumFile_loop dir norm lines st = foldl (ParseSumFile_step dir norm) st lines"
proof (induction lines arbitrary: st)
  case Nil
  show ?case by simp
next
  case (Cons line lines)
  let ?st1 = "st\<lparr>lineNumber := lineNumber st + 1\<rparr>"
  show ?case
  proof (cases "chomp line = []")
    case True
    have "\<not> bFailed ?st1" using Cons.prems by simp
    from Cons.IH [OF this] True Cons.prems show ?thesis
      by (simp add: ParseSumFile_step_eq Let_def)
  next
    case False
    show ?thesis
    proof (cases "ParseSumFile_line dir norm (digestLen st) (chomp line)")
      case None
      show ?thesis
      proof (cases "lineNumber st + 1 > 1")
        case True
        let ?st2 = "?st1\<lparr>skippedLines := skippedLines ?st1 @ [lineNumber ?st1], bFailed := False\<rparr>"
        have "\<not> bFailed ?st2" by simp
        from Cons.IH [OF this] True None False Cons.prems show ?thesis
          by (simp add: ParseSumFile_step_eq Let_def)
      next
        case F: False
        have "bFailed (?st1\<lparr>bFailed := True\<rparr>)" by simp
        from foldl_step_failed [OF this, of dir norm lines] F None False Cons.prems
        show ?thesis
          by (simp add: ParseSumFile_step_eq Let_def)
      qed
    next
      case (Some r)
      obtain digest entryName where r: "r = (digest, entryName)" by (cases r)
      let ?st2 = "?st1\<lparr>digestLen := length digest,
                      digestList := map_index (digestList ?st1) entryName (\<lambda>e. e\<lparr>m_digest := digest\<rparr>),
                      bFailed := False\<rparr>"
      have "\<not> bFailed ?st2" by simp
      from Cons.IH [OF this] Some r False Cons.prems show ?thesis
        by (simp add: ParseSumFile_step_eq Let_def)
    qed
  qed
qed

lemma line_parse_prefix:
  "k < length pre \<Longrightarrow> line_parse dir norm (pre @ suf) k = line_parse dir norm pre k"
  by (simp add: line_parse_def nth_append)

lemma line_parse_snoc:
  "line_parse dir norm (pre @ [line]) (length pre) =
     ParseSumFile_line dir norm (fixed_digest_len dir norm pre) (chomp line)"
  by (simp add: line_parse_def)

lemma line_fails_prefix:
  "k < length pre \<Longrightarrow> line_fails dir norm (pre @ suf) k = line_fails dir norm pre k"
  by (simp add: line_fails_def line_parse_prefix nth_append)

lemma line_fails_snoc:
  "line_fails dir norm (pre @ [line]) (length pre) \<longleftrightarrow>
     chomp line \<noteq> [] \<and> ParseSumFile_line dir norm (fixed_digest_len dir norm pre) (chomp line) = None"
  by (simp add: line_fails_def line_parse_snoc)

lemma accepted_entries_snoc:
  "accepted_entries dir norm (pre @ [line]) =
     accepted_entries dir norm pre @
       (case ParseSumFile_line dir norm (fixed_digest_len dir norm pre) (chomp line) of
          None \<Rightarrow> [] | Some (digest, entryName) \<Rightarrow> [(entryName, digest)])"
proof -
  have "List.map_filter
       (\<lambda>k. case line_parse dir norm (pre @ [line]) k of
               None \<Rightarrow> None
             | Some (digest, entryName) \<Rightarrow> Some (entryName, digest)) [0..<length pre]
     = List.map_filter
       (\<lambda>k. case line_parse dir norm pre k of
               None \<Rightarrow> None
             | Some (digest, entryName) \<Rightarrow> Some (entryName, digest)) [0..<length pre]"
    by (rule map_filter_cong_list) (simp add: line_parse_prefix)
  then show ?thesis
    by (simp add: accepted_entries_def map_filter_append_list line_parse_snoc
             split: option.splits)
qed

lemma skipped_snoc:
  "map (\<lambda>k. int k + 1) (filter (line_fails dir norm (pre @ [line])) [1..<length (pre @ [line])]) =
     map (\<lambda>k. int k + 1) (filter (line_fails dir norm pre) [1..<length pre])
     @ (if pre \<noteq> [] \<and> line_fails dir norm (pre @ [line]) (length pre)
        then [int (length pre) + 1] else [])"
proof (cases "pre = []")
  case True
  then show ?thesis by simp
next
  case False
  then have "1 \<le> length pre" by (cases pre) auto
  then have upt: "[1..<length (pre @ [line])] = [1..<length pre] @ [length pre]"
    by (simp add: upt_Suc_append)
  have "filter (line_fails dir norm (pre @ [line])) [1..<length pre]
        = filter (line_fails dir norm pre) [1..<length pre]"
    by (rule filter_cong) (simp_all add: line_fails_prefix)
  with False show ?thesis unfolding upt by simp
qed

lemma table_of_snoc:
  "table_of (es @ [(entryName, digest)]) =
     map_index (table_of es) entryName (\<lambda>e. e\<lparr>m_digest := digest\<rparr>)"
  by (simp add: table_of_def)

lemma table_of_Nil: "table_of [] = []"
  by (simp add: table_of_def)

lemma accepted_entries_Nil: "accepted_entries dir norm [] = []"
  by (simp add: accepted_entries_def)

lemma fixed_digest_len_Nil: "fixed_digest_len dir norm [] = 0"
  by (simp add: fixed_digest_len_def)

lemma ParseSumFile_invariant:
  "(pre \<noteq> [] \<and> line_fails dir norm pre 0 \<longrightarrow>
      foldl (ParseSumFile_step dir norm) ParseSumFile_init pre
        = ParseSumFile_init\<lparr>lineNumber := 1, bFailed := True\<rparr>) \<and>
   (\<not> (pre \<noteq> [] \<and> line_fails dir norm pre 0) \<longrightarrow>
      (let st = foldl (ParseSumFile_step dir norm) ParseSumFile_init pre in
       \<not> bFailed st \<and> lineNumber st = int (length pre)
       \<and> digestLen st = fixed_digest_len dir norm pre
       \<and> skippedLines st = map (\<lambda>k. int k + 1) (filter (line_fails dir norm pre) [1..<length pre])
       \<and> digestList st = table_of (accepted_entries dir norm pre)))"
proof (induction pre rule: rev_induct)
  case Nil
  show ?case
    by (simp add: ParseSumFile_init_def table_of_Nil accepted_entries_Nil fixed_digest_len_Nil)
next
  case (snoc line pre)
  let ?st = "foldl (ParseSumFile_step dir norm) ParseSumFile_init pre"
  let ?d = "fixed_digest_len dir norm pre"
  have fold: "foldl (ParseSumFile_step dir norm) ParseSumFile_init (pre @ [line])
              = ParseSumFile_step dir norm ?st line" by simp
  show ?case
  proof (cases "pre \<noteq> [] \<and> line_fails dir norm pre 0")
    case True
    then have st: "?st = ParseSumFile_init\<lparr>lineNumber := 1, bFailed := True\<rparr>"
      using snoc.IH by blast
    then have "bFailed ?st" by simp
    then have "ParseSumFile_step dir norm ?st line = ?st" by (rule ParseSumFile_step_failed)
    moreover have "line_fails dir norm (pre @ [line]) 0"
      using True by (simp add: line_fails_prefix)
    ultimately show ?thesis using st fold by simp
  next
    case False
    then have inv: "\<not> bFailed ?st" "lineNumber ?st = int (length pre)" "digestLen ?st = ?d"
      "skippedLines ?st = map (\<lambda>k. int k + 1) (filter (line_fails dir norm pre) [1..<length pre])"
      "digestList ?st = table_of (accepted_entries dir norm pre)"
      using snoc.IH by (simp_all add: Let_def)
    have first: "line_fails dir norm (pre @ [line]) 0 \<longleftrightarrow>
        (if pre = [] then chomp line \<noteq> [] \<and> ParseSumFile_line dir norm 0 (chomp line) = None
         else line_fails dir norm pre 0)"
    proof (cases "pre = []")
      case True
      then show ?thesis
        using line_fails_snoc [of dir norm "[]" line] by (simp add: fixed_digest_len_Nil)
    next
      case False
      then show ?thesis by (simp add: line_fails_prefix)
    qed
    note step = ParseSumFile_step_eq [OF inv(1), of dir norm line]
    show ?thesis
    proof (cases "chomp line = []")
      case True
      have p: "ParseSumFile_line dir norm d (chomp line) = None" for d
        using True by (simp add: ParseSumFile_line_Nil)
      have nf: "\<not> line_fails dir norm (pre @ [line]) (length pre)"
        using True by (simp add: line_fails_snoc)
      have nf0: "\<not> line_fails dir norm (pre @ [line]) 0"
        using first False True by (simp split: if_splits)
      have d: "fixed_digest_len dir norm (pre @ [line]) = ?d"
        by (simp add: fixed_digest_len_snoc p)
      have acc: "accepted_entries dir norm (pre @ [line]) = accepted_entries dir norm pre"
        by (simp add: accepted_entries_snoc p)
      have sk: "map (\<lambda>k. int k + 1) (filter (line_fails dir norm (pre @ [line])) [1..<length (pre @ [line])])
                = map (\<lambda>k. int k + 1) (filter (line_fails dir norm pre) [1..<length pre])"
        using nf by (simp only: skipped_snoc) simp
      have "ParseSumFile_step dir norm ?st line = ?st\<lparr>lineNumber := lineNumber ?st + 1\<rparr>"
        using step True by simp
      then show ?thesis
        using inv nf0 d acc sk unfolding fold by (simp add: Let_def)
    next
      case nonblank: False
      show ?thesis
      proof (cases "ParseSumFile_line dir norm ?d (chomp line)")
        case None
        have fails: "line_fails dir norm (pre @ [line]) (length pre)"
          using None nonblank by (simp add: line_fails_snoc)
        have p0: "?d = 0 \<Longrightarrow> ParseSumFile_line dir norm 0 (chomp line) = None"
          using None by simp
        have d: "fixed_digest_len dir norm (pre @ [line]) = ?d"
          using p0 by (simp add: fixed_digest_len_snoc)
        have acc: "accepted_entries dir norm (pre @ [line]) = accepted_entries dir norm pre"
          by (simp add: accepted_entries_snoc None)
        show ?thesis
        proof (cases "pre = []")
          case True
          then have "lineNumber ?st = 0" using inv(2) by simp
          then have "ParseSumFile_step dir norm ?st line = ?st\<lparr>lineNumber := 1, bFailed := True\<rparr>"
            using step nonblank None inv(3) by simp
          moreover have "?st = ParseSumFile_init" using True by simp
          moreover have "line_fails dir norm (pre @ [line]) 0"
            using first True nonblank None by (simp add: fixed_digest_len_Nil)
          ultimately show ?thesis unfolding fold by simp
        next
          case ne: False
          then have "lineNumber ?st + 1 > 1" using inv(2) by (cases pre) auto
          then have s: "ParseSumFile_step dir norm ?st line =
             ?st\<lparr>lineNumber := lineNumber ?st + 1,
                  skippedLines := skippedLines ?st @ [lineNumber ?st + 1], bFailed := False\<rparr>"
            using step nonblank None inv(3) by simp
          have nf0: "\<not> line_fails dir norm (pre @ [line]) 0"
            using first False ne by simp
          have sk: "map (\<lambda>k. int k + 1) (filter (line_fails dir norm (pre @ [line])) [1..<length (pre @ [line])])
                = map (\<lambda>k. int k + 1) (filter (line_fails dir norm pre) [1..<length pre])
                  @ [int (length pre) + 1]"
            using fails ne by (simp only: skipped_snoc) simp
          show ?thesis
            using inv nf0 d acc sk unfolding fold s by (simp add: Let_def)
        qed
      next
        case (Some r)
        obtain digest entryName where r: "r = (digest, entryName)" by (cases r)
        have P: "ParseSumFile_line dir norm ?d (chomp line) = Some (digest, entryName)"
          using Some r by simp
        have nf: "\<not> line_fails dir norm (pre @ [line]) (length pre)"
          using P by (simp add: line_fails_snoc)
        have nf0: "\<not> line_fails dir norm (pre @ [line]) 0"
        proof (cases "pre = []")
          case True
          then show ?thesis using first P by (simp add: fixed_digest_len_Nil)
        next
          case False
          then show ?thesis using first \<open>\<not> (pre \<noteq> [] \<and> line_fails dir norm pre 0)\<close> by simp
        qed
        have d: "fixed_digest_len dir norm (pre @ [line]) = length digest"
        proof (cases "?d = 0")
          case True
          then show ?thesis using P by (simp add: fixed_digest_len_snoc)
        next
          case False
          with ParseSumFile_line_SomeD [OF P] show ?thesis
            by (simp add: fixed_digest_len_snoc)
        qed
        have acc: "accepted_entries dir norm (pre @ [line])
                   = accepted_entries dir norm pre @ [(entryName, digest)]"
          by (simp add: accepted_entries_snoc P)
        have sk: "map (\<lambda>k. int k + 1) (filter (line_fails dir norm (pre @ [line])) [1..<length (pre @ [line])])
                = map (\<lambda>k. int k + 1) (filter (line_fails dir norm pre) [1..<length pre])"
          using nf by (simp only: skipped_snoc) simp
        have s: "ParseSumFile_step dir norm ?st line =
             ?st\<lparr>lineNumber := lineNumber ?st + 1, digestLen := length digest,
                digestList := map_index (digestList ?st) entryName (\<lambda>e. e\<lparr>m_digest := digest\<rparr>),
                bFailed := False\<rparr>"
          using step nonblank P inv(3) by simp
        show ?thesis
          using inv nf0 d sk unfolding fold s acc table_of_snoc by (simp add: Let_def)
      qed
    qed
  qed
qed

lemma ParseSumFile_result:
  "ParseSumFile dir (Some lines) dl0 sk0 norm =
     (if lines \<noteq> [] \<and> line_fails dir norm lines 0 then (False, [], [])
      else (table_of (accepted_entries dir norm lines) \<noteq> [],
            table_of (accepted_entries dir norm lines),
            map (\<lambda>k. int k + 1) (filter (line_fails dir norm lines) [1..<length lines])))"
proof -
  have loop: "ParseSumFile_loop dir norm lines
                \<lparr>digestLen = 0, lineNumber = 0, digestList = [], skippedLines = [], bFailed = False\<rparr>
              = foldl (ParseSumFile_step dir norm) ParseSumFile_init lines"
    using ParseSumFile_loop_foldl [of ParseSumFile_init dir norm lines]
    by (simp add: ParseSumFile_init_def)
  show ?thesis
  proof (cases "lines \<noteq> [] \<and> line_fails dir norm lines 0")
    case True
    with ParseSumFile_invariant [of lines dir norm]
    have "foldl (ParseSumFile_step dir norm) ParseSumFile_init lines
        = ParseSumFile_init\<lparr>lineNumber := 1, bFailed := True\<rparr>" by blast
    with True show ?thesis
      unfolding ParseSumFile_def option.case loop
      by (simp add: ParseSumFile_init_def)
  next
    case False
    let ?st = "foldl (ParseSumFile_step dir norm) ParseSumFile_init lines"
    from False ParseSumFile_invariant [of lines dir norm]
    have "\<not> bFailed ?st"
      "skippedLines ?st = map (\<lambda>k. int k + 1) (filter (line_fails dir norm lines) [1..<length lines])"
      "digestList ?st = table_of (accepted_entries dir norm lines)"
      by (simp_all add: Let_def)
    with False show ?thesis
      unfolding ParseSumFile_def option.case loop
      by (auto simp: Let_def)
  qed
qed

lemma keys_map_index: "fst ` set (map_index m k f) = insert k (fst ` set m)"
  by (simp add: map_index_def dom_update)

lemma keys_table_of: "fst ` set (table_of es) = fst ` set es"
proof (induction es rule: rev_induct)
  case Nil
  show ?case by (simp add: table_of_Nil)
next
  case (snoc x es)
  obtain n dg where x: "x = (n, dg)" by (cases x)
  show ?case unfolding x table_of_snoc keys_map_index using snoc by simp
qed

lemma distinct_table_of: "distinct (map fst (table_of es))"
proof (induction es rule: rev_induct)
  case Nil
  show ?case by (simp add: table_of_Nil)
next
  case (snoc x es)
  obtain n dg where x: "x = (n, dg)" by (cases x)
  show ?case unfolding x table_of_snoc map_index_def using snoc by (simp add: distinct_update)
qed

lemma map_of_table_of:
  "map_of (table_of es) p =
     map_option (\<lambda>dg. new_HashResultEntry\<lparr>m_digest := dg\<rparr>) (map_of (rev es) p)"
proof (induction es arbitrary: p rule: rev_induct)
  case Nil
  show ?case by (simp add: table_of_Nil)
next
  case (snoc x es)
  obtain n dg where x: "x = (n, dg)" by (cases x)
  show ?case
  proof (cases "p = n")
    case False
    then show ?thesis
      unfolding x table_of_snoc map_index_def using snoc by (simp add: update_conv')
  next
    case True
    have "(case map_of (table_of es) n of None \<Rightarrow> new_HashResultEntry | Some e \<Rightarrow> e)\<lparr>m_digest := dg\<rparr>
          = new_HashResultEntry\<lparr>m_digest := dg\<rparr>"
    proof (cases "map_of (rev es) n")
      case None
      then show ?thesis using snoc [where p = n] by simp
    next
      case (Some dg')
      then have "map_of (table_of es) n = Some (new_HashResultEntry\<lparr>m_digest := dg'\<rparr>)"
        using snoc [where p = n] by simp
      then show ?thesis by simp
    qed
    with True show ?thesis
      unfolding x table_of_snoc map_index_def by (simp add: update_conv')
  qed
qed

lemma filter_key_distinct:
  "distinct (map fst al) \<Longrightarrow> map_of al k = Some v \<Longrightarrow>
   length (filter (\<lambda>e. fst e = k) al) = 1"
proof (induction al)
  case Nil
  then show ?case by simp
next
  case (Cons a al)
  show ?case
  proof (cases "fst a = k")
    case True
    then have "k \<notin> fst ` set al" using Cons.prems(1) by auto
    then have "filter (\<lambda>e. fst e = k) al = []" by (auto simp: filter_empty_conv)
    with True show ?thesis by simp
  next
    case False
    with Cons show ?thesis by (cases a) auto
  qed
qed

lemma line_parse_fixed_len:
  assumes k: "k < length lines"
    and p: "line_parse dir norm lines k = Some (digest, path)"
  shows "length digest = fixed_digest_len dir norm lines"
proof -
  let ?d = "fixed_digest_len dir norm (take k lines)"
  have P: "ParseSumFile_line dir norm ?d (chomp (lines ! k)) = Some (digest, path)"
    using p by (simp add: line_parse_def)
  have split: "lines = take (Suc k) lines @ drop (Suc k) lines" by simp
  have tk: "take (Suc k) lines = take k lines @ [lines ! k]"
    using k by (rule take_Suc_conv_app_nth)
  have "fixed_digest_len dir norm (take (Suc k) lines) = length digest"
  proof (cases "?d = 0")
    case True
    then show ?thesis using P unfolding tk by (simp add: fixed_digest_len_snoc)
  next
    case False
    with ParseSumFile_line_SomeD [OF P] show ?thesis
      unfolding tk by (simp add: fixed_digest_len_snoc)
  qed
  moreover have "length digest \<noteq> 0" using P by (rule ParseSumFile_line_length)
  ultimately show ?thesis
    using fixed_digest_len_append [of dir norm "take (Suc k) lines" "drop (Suc k) lines"]
    by simp
qed

lemma other_length_fails:
  assumes "fixed_digest_len dir norm (take k lines) \<noteq> 0"
    and "ParseSumFile_line dir norm 0 (chomp (lines ! k)) = Some (digest, path)"
    and "length digest \<noteq> fixed_digest_len dir norm (take k lines)"
  shows "line_fails dir norm lines k"
proof -
  have "chomp (lines ! k) \<noteq> []"
    using assms(2) ParseSumFile_line_Nil [of dir norm 0] by auto
  moreover have "line_parse dir norm lines k = None"
    unfolding line_parse_def ParseSumFile_line_fixed [OF assms(2)] using assms(1,3) by simp
  ultimately show ?thesis by (simp add: line_fails_def)
qed

text \<open>
  Claim C4. When line 1 is not empty and fails to parse, \<open>ParseSumFile\<close> returns false
  with an empty table. Otherwise the skipped-lines list holds, in order, the numbers
  (from 1) of exactly the lines after line 1 that are not empty and fail to parse
  under the digest length fixed before them, and the lines accepted after them are
  still entered in the table. Every accepted line has the digest length of the first
  accepted line, and a line that is well formed but has a digest of another length
  than the one fixed fails to parse.
\<close>

theorem ParseSumFile_lines:
  "(lines \<noteq> [] \<and> line_fails dir norm lines 0 \<longrightarrow>
      ParseSumFile dir (Some lines) dl0 sk0 norm = (False, [], [])) \<and>
   (\<not> (lines \<noteq> [] \<and> line_fails dir norm lines 0) \<longrightarrow>
      snd (snd (ParseSumFile dir (Some lines) dl0 sk0 norm))
        = map (\<lambda>k. int k + 1) (filter (line_fails dir norm lines) [1..<length lines])
      \<and> set (map fst (fst (snd (ParseSumFile dir (Some lines) dl0 sk0 norm))))
          = set (map fst (accepted_entries dir norm lines))) \<and>
   (\<forall>k digest path. k < length lines \<and> line_parse dir norm lines k = Some (digest, path) \<longrightarrow>
      length digest = fixed_digest_len dir norm lines) \<and>
   (\<forall>k digest path. fixed_digest_len dir norm (take k lines) \<noteq> 0
      \<and> ParseSumFile_line dir norm 0 (chomp (lines ! k)) = Some (digest, path)
      \<and> length digest \<noteq> fixed_digest_len dir norm (take k lines) \<longrightarrow>
      line_fails dir norm lines k)"
proof (intro conjI impI allI)
  assume "lines \<noteq> [] \<and> line_fails dir norm lines 0"
  then show "ParseSumFile dir (Some lines) dl0 sk0 norm = (False, [], [])"
    by (simp add: ParseSumFile_result)
next
  assume "\<not> (lines \<noteq> [] \<and> line_fails dir norm lines 0)"
  then have r: "ParseSumFile dir (Some lines) dl0 sk0 norm =
      (table_of (accepted_entries dir norm lines) \<noteq> [],
       table_of (accepted_entries dir norm lines),
       map (\<lambda>k. int k + 1) (filter (line_fails dir norm lines) [1..<length lines]))"
    by (simp only: ParseSumFile_result if_False)
  show "snd (snd (ParseSumFile dir (Some lines) dl0 sk0 norm))
        = map (\<lambda>k. int k + 1) (filter (line_fails dir norm lines) [1..<length lines])"
    unfolding r by simp
  show "set (map fst (fst (snd (ParseSumFile dir (Some lines) dl0 sk0 norm))))
          = set (map fst (accepted_entries dir norm lines))"
    unfolding r using keys_table_of [of "accepted_entries dir norm lines"] by simp
next
  fix k digest path
  assume "k < length lines \<and> line_parse dir norm lines k = Some (digest, path)"
  then show "length digest = fixed_digest_len dir norm lines"
    using line_parse_fixed_len by blast
next
  fix k digest path
  assume "fixed_digest_len dir norm (take k lines) \<noteq> 0
      \<and> ParseSumFile_line dir norm 0 (chomp (lines ! k)) = Some (digest, path)
      \<and> length digest \<noteq> fixed_digest_len dir norm (take k lines)"
  then show "line_fails dir norm lines k"
    using other_length_fails by blast
qed

lemma accepted_entries_split:
  assumes k: "k < length lines"
    and p: "line_parse dir norm lines k = Some (digest, path)"
    and last: "\<forall>j digest'. k < j \<and> j < length lines \<longrightarrow>
                 line_parse dir norm lines j \<noteq> Some (digest', path)"
  shows "\<exists>A B. accepted_entries dir norm lines = A @ (path, digest) # B \<and> path \<notin> fst ` set B"
proof -
  let ?f = "\<lambda>k. case line_parse dir norm lines k of
               None \<Rightarrow> None
             | Some (digest, entryName) \<Rightarrow> Some (entryName, digest)"
  have upt: "[0..<length lines] = [0..<k] @ k # [Suc k..<length lines]"
    using k by (metis le0 upt_conv_Cons upt_add_eq_append le_add_diff_inverse less_imp_le_nat)
  have acc: "accepted_entries dir norm lines
        = List.map_filter ?f [0..<k] @ (path, digest) # List.map_filter ?f [Suc k..<length lines]"
    unfolding accepted_entries_def upt map_filter_append_list using p by simp
  have "path \<notin> fst ` set (List.map_filter ?f [Suc k..<length lines])"
  proof
    assume "path \<in> fst ` set (List.map_filter ?f [Suc k..<length lines])"
    then obtain dg where "(path, dg) \<in> set (List.map_filter ?f [Suc k..<length lines])" by auto
    then obtain j where j: "j \<in> set [Suc k..<length lines]" "?f j = Some (path, dg)"
      by (auto simp: List.map_filter_def)
    then have "line_parse dir norm lines j = Some (dg, path)"
      by (auto split: option.splits)
    with last j(1) show False by auto
  qed
  with acc show ?thesis by blast
qed

text \<open>
  Claim C9. When \<open>ParseSumFile\<close> succeeds and line \<open>k + 1\<close> is the last accepted line
  with a given path, the table holds exactly one entry for this path and its digest
  is that of this line, whatever earlier lines gave for the path.
\<close>

theorem ParseSumFile_last_wins:
  assumes "ParseSumFile dir (Some lines) dl0 sk0 norm = (True, tbl, sk)"
    and "k < length lines"
    and "line_parse dir norm lines k = Some (digest, path)"
    and "\<forall>j digest'. k < j \<and> j < length lines \<longrightarrow>
           line_parse dir norm lines j \<noteq> Some (digest', path)"
  shows "length (filter (\<lambda>e. fst e = path) tbl) = 1
         \<and> map_option m_digest (map_of tbl path) = Some digest"
proof -
  have tbl: "tbl = table_of (accepted_entries dir norm lines)"
    using assms(1) by (simp add: ParseSumFile_result split: if_splits)
  from accepted_entries_split [OF assms(2,3,4)] obtain A B where
    acc: "accepted_entries dir norm lines = A @ (path, digest) # B" and B: "path \<notin> fst ` set B"
    by blast
  have "map_of (rev B) path = None" using B by (simp add: map_of_eq_None_iff)
  then have "map_of (rev (accepted_entries dir norm lines)) path = Some digest"
    unfolding acc by (simp add: map_add_def)
  then have m: "map_of tbl path = Some (new_HashResultEntry\<lparr>m_digest := digest\<rparr>)"
    unfolding tbl by (simp add: map_of_table_of)
  have "distinct (map fst tbl)" unfolding tbl by (rule distinct_table_of)
  from filter_key_distinct [OF this m] m show ?thesis by simp
qed

theorem ParseSumFile_lines_witness:
  "example_badfile \<noteq> [] \<and> line_fails (wstr ''root'' @ [0x5C]) True example_badfile 0
   \<and> ParseSumFile (wstr ''root'' @ [0x5C]) (Some example_badfile) [] [] True = (False, [], [])
   \<and> \<not> (example_sumfile \<noteq> [] \<and> line_fails (wstr ''root'' @ [0x5C]) True example_sumfile 0)
   \<and> snd (snd (ParseSumFile (wstr ''root'' @ [0x5C]) (Some example_sumfile) [] [] True)) = [3]
   \<and> set (map fst (fst (snd (ParseSumFile (wstr ''root'' @ [0x5C]) (Some example_sumfile) [] [] True))))
       = {wstr ''root'' @ [0x5C] @ wstr ''b.txt'', wstr ''root'' @ [0x5C] @ wstr ''Sub'' @ [0x5C] @ wstr ''z''}
   \<and> line_parse (wstr ''root'' @ [0x5C]) True example_sumfile 3
       = Some (snd (FromHex example_md5'), wstr ''root'' @ [0x5C] @ wstr ''b.txt'')
   \<and> length (snd (FromHex example_md5')) = fixed_digest_len (wstr ''root'' @ [0x5C]) True example_sumfile
   \<and> fixed_digest_len (wstr ''root'' @ [0x5C]) True (take 2 example_sumfile) \<noteq> 0
   \<and> ParseSumFile_line (wstr ''root'' @ [0x5C]) True 0 (chomp (example_sumfile ! 2))
       = Some (snd (FromHex example_sha1), wstr ''root'' @ [0x5C] @ wstr ''a.TXT'')
   \<and> length (snd (FromHex example_sha1))
       \<noteq> fixed_digest_len (wstr ''root'' @ [0x5C]) True (take 2 example_sumfile)
   \<and> line_fails (wstr ''root'' @ [0x5C]) True example_sumfile 2"
proof -
  let ?D = "wstr ''root'' @ [0x5C]"
  have h1: "example_badfile \<noteq> [] \<and> line_fails ?D True example_badfile 0"
    by code_simp
  have h2: "\<not> (example_sumfile \<noteq> [] \<and> line_fails ?D True example_sumfile 0)"
    by code_simp
  have h3: "(3::nat) < length example_sumfile \<and> line_parse ?D True example_sumfile 3
       = Some (snd (FromHex example_md5'), ?D @ wstr ''b.txt'')"
    by code_simp
  have h4: "fixed_digest_len ?D True (take 2 example_sumfile) \<noteq> 0
   \<and> ParseSumFile_line ?D True 0 (chomp (example_sumfile ! 2))
       = Some (snd (FromHex example_sha1), ?D @ wstr ''a.TXT'')
   \<and> length (snd (FromHex example_sha1)) \<noteq> fixed_digest_len ?D True (take 2 example_sumfile)"
    by code_simp
  have e1: "map (\<lambda>k. int k + 1) (filter (line_fails ?D True example_sumfile) [1..<length example_sumfile])
            = [3]"
    by code_simp
  have e2: "set (map fst (accepted_entries ?D True example_sumfile))
            = {?D @ wstr ''b.txt'', ?D @ wstr ''Sub'' @ [0x5C] @ wstr ''z''}"
    by code_simp
  note bad = ParseSumFile_lines [of example_badfile ?D True "[]" "[]"]
  note good = ParseSumFile_lines [of example_sumfile ?D True "[]" "[]"]
  from bad h1 have 1: "ParseSumFile ?D (Some example_badfile) [] [] True = (False, [], [])"
    by blast
  from good h2 have 2: "snd (snd (ParseSumFile ?D (Some example_sumfile) [] [] True)) = [3]
    \<and> set (map fst (fst (snd (ParseSumFile ?D (Some example_sumfile) [] [] True))))
       = {?D @ wstr ''b.txt'', ?D @ wstr ''Sub'' @ [0x5C] @ wstr ''z''}"
    unfolding e1 [symmetric] e2 [symmetric] by blast
  from good h3 have 3: "length (snd (FromHex example_md5')) = fixed_digest_len ?D True example_sumfile"
    by blast
  from good h4 have 4: "line_fails ?D True example_sumfile 2" by blast
  from h1 h2 h3 h4 1 2 3 4 show ?thesis by simp
qed

theorem ParseSumFile_last_wins_witness:
  "ParseSumFile (wstr ''root'' @ [0x5C]) (Some example_sumfile) [] [] True
     = (True,
        [(wstr ''root'' @ [0x5C] @ wstr ''b.txt'',
          new_HashResultEntry\<lparr>m_digest := snd (FromHex example_md5')\<rparr>),
         (wstr ''root'' @ [0x5C] @ wstr ''Sub'' @ [0x5C] @ wstr ''z'',
          new_HashResultEntry\<lparr>m_digest := snd (FromHex example_md5)\<rparr>)],
        [3])
   \<and> line_parse (wstr ''root'' @ [0x5C]) True example_sumfile 0
       = Some (snd (FromHex example_md5), wstr ''root'' @ [0x5C] @ wstr ''b.txt'')
   \<and> line_parse (wstr ''root'' @ [0x5C]) True example_sumfile 3
       = Some (snd (FromHex example_md5'), wstr ''root'' @ [0x5C] @ wstr ''b.txt'')
   \<and> line_parse (wstr ''root'' @ [0x5C]) True example_sumfile 4
       = Some (snd (FromHex example_md5), wstr ''root'' @ [0x5C] @ wstr ''Sub'' @ [0x5C] @ wstr ''z'')
   \<and> length (filter (\<lambda>e. fst e = wstr ''root'' @ [0x5C] @ wstr ''b.txt'')
        [(wstr ''root'' @ [0x5C] @ wstr ''b.txt'',
          new_HashResultEntry\<lparr>m_digest := snd (FromHex example_md5')\<rparr>),
         (wstr ''root'' @ [0x5C] @ wstr ''Sub'' @ [0x5C] @ wstr ''z'',
          new_HashResultEntry\<lparr>m_digest := snd (FromHex example_md5)\<rparr>)]) = 1
   \<and> map_option m_digest
        (map_of [(wstr ''root'' @ [0x5C] @ wstr ''b.txt'',
                  new_HashResultEntry\<lparr>m_digest := snd (FromHex example_md5')\<rparr>),
                 (wstr ''root'' @ [0x5C] @ wstr ''Sub'' @ [0x5C] @ wstr ''z'',
                  new_HashResultEntry\<lparr>m_digest := snd (FromHex example_md5)\<rparr>)]
           (wstr ''root'' @ [0x5C] @ wstr ''b.txt''))
       = Some (snd (FromHex example_md5'))"
proof -
  let ?D = "wstr ''root'' @ [0x5C]"
  let ?tbl = "[(?D @ wstr ''b.txt'', new_HashResultEntry\<lparr>m_digest := snd (FromHex example_md5')\<rparr>),
               (?D @ wstr ''Sub'' @ [0x5C] @ wstr ''z'',
                new_HashResultEntry\<lparr>m_digest := snd (FromHex example_md5)\<rparr>)]"
  have h1: "ParseSumFile ?D (Some example_sumfile) [] [] True = (True, ?tbl, [3])"
    by code_simp
  have h2: "(3::nat) < length example_sumfile" by code_simp
  have h3: "line_parse ?D True example_sumfile 3 = Some (snd (FromHex example_md5'), ?D @ wstr ''b.txt'')"
    by code_simp
  have h0: "line_parse ?D True example_sumfile 0 = Some (snd (FromHex example_md5), ?D @ wstr ''b.txt'')"
    by code_simp
  have l4: "line_parse ?D True example_sumfile 4
              = Some (snd (FromHex example_md5), ?D @ wstr ''Sub'' @ [0x5C] @ wstr ''z'')"
    by code_simp
  have ne: "?D @ wstr ''Sub'' @ [0x5C] @ wstr ''z'' \<noteq> ?D @ wstr ''b.txt''" by code_simp
  have len: "length example_sumfile = 5" by code_simp
  have h4: "\<forall>j digest'. 3 < j \<and> j < length example_sumfile \<longrightarrow>
           line_parse ?D True example_sumfile j \<noteq> Some (digest', ?D @ wstr ''b.txt'')"
  proof (intro allI impI)
    fix j :: nat and digest'
    assume "3 < j \<and> j < length example_sumfile"
    then have "j = 4" using len by arith
    then show "line_parse ?D True example_sumfile j \<noteq> Some (digest', ?D @ wstr ''b.txt'')"
      using l4 ne by simp
  qed
  from ParseSumFile_last_wins [OF h1 h2 h3 h4] h1 h0 h3 l4 show ?thesis by simp
qed

section \<open>Properties of the walk\<close>

lemma set_list_insert: "set (list_insert cmp x ys) = insert x (set ys)"
  by (induction ys) auto

lemma set_list_sort: "set (list_sort cmp xs) = set xs"
  by (induction xs) (simp_all add: list_sort_def set_list_insert)

lemma sorted_list_insert:
  assumes total: "\<And>a b. \<not> cmp a b \<Longrightarrow> le b a"
    and weak: "\<And>a b. cmp a b \<Longrightarrow> le a b"
    and trans: "\<And>a b c. le a b \<Longrightarrow> le b c \<Longrightarrow> le a c"
  shows "sorted_wrt le ys \<Longrightarrow> sorted_wrt le (list_insert cmp x ys)"
proof (induction ys)
  case Nil
  show ?case by simp
next
  case (Cons y ys)
  show ?case
  proof (cases "cmp y x")
    case True
    then have "le y x" by (rule weak)
    with Cons True show ?thesis by (auto simp: set_list_insert)
  next
    case False
    then have "le x y" by (rule total)
    with Cons False show ?thesis by (auto intro: trans)
  qed
qed

lemma sorted_list_sort:
  assumes "\<And>a b. \<not> cmp a b \<Longrightarrow> le b a" "\<And>a b. cmp a b \<Longrightarrow> le a b"
    "\<And>a b c. le a b \<Longrightarrow> le b c \<Longrightarrow> le a c"
  shows "sorted_wrt le (list_sort cmp xs)"
proof (induction xs)
  case Nil
  show ?case by (simp add: list_sort_def)
next
  case (Cons x xs)
  have "list_sort cmp (x # xs) = list_insert cmp x (list_sort cmp xs)"
    by (simp add: list_sort_def)
  with Cons sorted_list_insert [of cmp le, OF assms] show ?case by simp
qed


lemma records_entry_HashFile: "records_entry (HashFile cfg f)"
  by (simp add: records_entry_def HashFile_def Let_def split: option.splits)

lemma HashDirectory_find_cases:
  "fst (HashDirectory_find cfg dirPath (cFileName, reparse, isDir, item) (dirContent, st)) = dirContent
   \<or> fst (HashDirectory_find cfg dirPath (cFileName, reparse, isDir, item) (dirContent, st))
       = dirContent @ [(new_CDirContent dirPath cFileName isDir, item)]"
  by (cases isDir) (simp_all add: HashDirectory_find_def Let_def)

lemma HashDirectory_find_entries:
  assumes "\<forall>(entry, hash_it) \<in> set (fst acc).
             (\<exists>name. m_szPath entry = AppendName dirPath name) \<and> records_entry hash_it"
    and "records_entry (snd (snd (snd ffd)))"
  shows "\<forall>(entry, hash_it) \<in> set (fst (HashDirectory_find cfg dirPath ffd acc)).
           (\<exists>name. m_szPath entry = AppendName dirPath name) \<and> records_entry hash_it"
proof -
  obtain cFileName reparse isDir item where ffd: "ffd = (cFileName, reparse, isDir, item)"
    by (cases ffd) auto
  obtain dirContent st where acc: "acc = (dirContent, st)" by (cases acc)
  have new: "\<exists>name. m_szPath (new_CDirContent dirPath cFileName isDir) = AppendName dirPath name"
    by (auto simp: new_CDirContent_def)
  from HashDirectory_find_cases [of cfg dirPath cFileName reparse isDir item dirContent st]
  show ?thesis
  proof
    assume "fst (HashDirectory_find cfg dirPath (cFileName, reparse, isDir, item) (dirContent, st))
              = dirContent"
    then show ?thesis using assms(1) unfolding ffd acc by simp
  next
    assume "fst (HashDirectory_find cfg dirPath (cFileName, reparse, isDir, item) (dirContent, st))
              = dirContent @ [(new_CDirContent dirPath cFileName isDir, item)]"
    then show ?thesis using assms new unfolding ffd acc by simp
  qed
qed

lemma HashDirectory_find_foldl:
  assumes "\<forall>(entry, hash_it) \<in> set (fst acc).
             (\<exists>name. m_szPath entry = AppendName dirPath name) \<and> records_entry hash_it"
    and "\<forall>ffd \<in> set ffds. records_entry (snd (snd (snd ffd)))"
  shows "\<forall>(entry, hash_it) \<in> set (fst (foldl (\<lambda>acc ffd. HashDirectory_find cfg dirPath ffd acc) acc ffds)).
           (\<exists>name. m_szPath entry = AppendName dirPath name) \<and> records_entry hash_it"
  using assms
proof (induction ffds arbitrary: acc)
  case Nil
  then show ?case by simp
next
  case (Cons ffd ffds)
  have "\<forall>(entry, hash_it) \<in> set (fst (HashDirectory_find cfg dirPath ffd acc)).
           (\<exists>name. m_szPath entry = AppendName dirPath name) \<and> records_entry hash_it"
    using Cons.prems by (intro HashDirectory_find_entries) auto
  from Cons.IH [OF this] Cons.prems(2) show ?case by simp
qed


lemma HashDirectory_loop_order:
  assumes "\<forall>(entry, hash_it) \<in> set its. records_entry hash_it"
    and "sorted_wrt (\<lambda>a b. wcsicmp (LPCWSTR (fst a)) (LPCWSTR (fst b)) \<le> 0) its"
  shows "(\<forall>v \<in> set (snd (snd (HashDirectory_loop its st))).
            canonical_order v \<and> (\<exists>(entry, hash_it) \<in> set its. visit_path v = m_szPath entry))
         \<and> sorted_wrt (\<lambda>a b. wcsicmp (m_path (visit_path a)) (m_path (visit_path b)) \<le> 0)
              (snd (snd (HashDirectory_loop its st)))"
  using assms
proof (induction its arbitrary: st)
  case Nil
  show ?case by simp
next
  case (Cons x its)
  obtain it hash_it where x: "x = (it, hash_it)" by (cases x)
  obtain dwError st' vs where r: "hash_it (m_szPath it) st = (dwError, st', vs)"
    by (cases "hash_it (m_szPath it) st")
  have rec: "records_entry hash_it" using Cons.prems(1) x by simp
  have "case snd (snd (hash_it (m_szPath it) st)) of
          [] \<Rightarrow> True
        | v # vs \<Rightarrow> vs = [] \<and> visit_path v = m_szPath it \<and> canonical_order v"
    using rec unfolding records_entry_def by blast
  then have vs: "vs = [] \<or> (\<exists>v. vs = [v] \<and> visit_path v = m_szPath it \<and> canonical_order v)"
    unfolding r by (cases vs) simp_all
  have head: "\<forall>v \<in> set vs. canonical_order v \<and> visit_path v = m_szPath it"
    using vs by auto
  show ?case
  proof (cases "dwError \<noteq> 0")
    case True
    then have "snd (snd (HashDirectory_loop (x # its) st)) = vs"
      using r x by simp
    moreover have "sorted_wrt (\<lambda>a b. wcsicmp (m_path (visit_path a)) (m_path (visit_path b)) \<le> 0) vs"
      using vs by auto
    ultimately show ?thesis using head x by simp
  next
    case False
    obtain dwError' st'' vs' where r': "HashDirectory_loop its st' = (dwError', st'', vs')"
      by (cases "HashDirectory_loop its st'")
    have all: "snd (snd (HashDirectory_loop (x # its) st)) = vs @ vs'"
      using r r' x False by simp
    have IH: "(\<forall>v \<in> set vs'.
            canonical_order v \<and> (\<exists>(entry, hash_it) \<in> set its. visit_path v = m_szPath entry))
         \<and> sorted_wrt (\<lambda>a b. wcsicmp (m_path (visit_path a)) (m_path (visit_path b)) \<le> 0) vs'"
      using Cons.IH [of st'] Cons.prems r' by simp
    have first: "\<forall>y \<in> set its. wcsicmp (LPCWSTR it) (LPCWSTR (fst y)) \<le> 0"
      using Cons.prems(2) x by simp
    have cross: "wcsicmp (m_path (visit_path v)) (m_path (visit_path w)) \<le> 0"
      if "v \<in> set vs" "w \<in> set vs'" for v w
    proof -
      from that head have v: "visit_path v = m_szPath it" by blast
      from that IH obtain entry k where e: "(entry, k) \<in> set its" "visit_path w = m_szPath entry"
        by blast
      from first e(1) have "wcsicmp (LPCWSTR it) (LPCWSTR (fst (entry, k))) \<le> 0" by blast
      with v e(2) show ?thesis by (simp add: LPCWSTR_def)
    qed
    have sorted_vs: "sorted_wrt (\<lambda>a b. wcsicmp (m_path (visit_path a)) (m_path (visit_path b)) \<le> 0) vs"
      using vs by auto
    have "sorted_wrt (\<lambda>a b. wcsicmp (m_path (visit_path a)) (m_path (visit_path b)) \<le> 0) (vs @ vs')"
      using sorted_vs IH cross by (simp add: sorted_wrt_append)
    moreover have "\<forall>v \<in> set (vs @ vs').
            canonical_order v \<and> (\<exists>(entry, hash_it) \<in> set (x # its). visit_path v = m_szPath entry)"
    proof
      fix v assume "v \<in> set (vs @ vs')"
      then consider "v \<in> set vs" | "v \<in> set vs'" by auto
      then show "canonical_order v \<and> (\<exists>(entry, hash_it) \<in> set (x # its). visit_path v = m_szPath entry)"
      proof cases
        case 1
        with head x show ?thesis by simp
      next
        case 2
        with IH show ?thesis by auto
      qed
    qed
    ultimately show ?thesis using all by simp
  qed
qed

lemma entry_name_AppendName:
  "visit_path v = AppendName dirPath name \<Longrightarrow>
   entry_name dirPath v = name \<and> m_path (visit_path v) = m_path dirPath @ [0x5C] @ name"
  by (simp add: entry_name_def AppendName_def)

lemma records_entry_HashDirectory_body:
  assumes "\<forall>ffd \<in> set ffds. records_entry (snd (snd (snd ffd)))"
  shows "records_entry (HashDirectory_body cfg first_error ffds last_error)"
  unfolding records_entry_def
proof (intro allI)
  fix dirPath st
  let ?le = "\<lambda>a b :: CDirContent \<times> (CPath \<Rightarrow> walk_state \<Rightarrow> walk_result).
               wcsicmp (LPCWSTR (fst a)) (LPCWSTR (fst b)) \<le> 0"
  let ?cmp = "\<lambda>a b :: CDirContent \<times> (CPath \<Rightarrow> walk_state \<Rightarrow> walk_result).
               compare_nocase (LPCWSTR (fst a)) (LPCWSTR (fst b))"
  obtain dirContent st1 where
    fold: "foldl (\<lambda>acc ffd. HashDirectory_find cfg dirPath ffd acc) ([], st) ffds = (dirContent, st1)"
    by (cases "foldl (\<lambda>acc ffd. HashDirectory_find cfg dirPath ffd acc) ([], st) ffds")
  let ?its = "list_sort ?cmp dirContent"
  obtain dwError st2 vs where loop: "HashDirectory_loop ?its st1 = (dwError, st2, vs)"
    by (cases "HashDirectory_loop ?its st1")
  have inv: "\<forall>(entry, hash_it) \<in> set dirContent.
           (\<exists>name. m_szPath entry = AppendName dirPath name) \<and> records_entry hash_it"
    using HashDirectory_find_foldl [of "([], st)" dirPath ffds cfg] assms fold by simp
  then have inv': "\<forall>(entry, hash_it) \<in> set ?its.
           (\<exists>name. m_szPath entry = AppendName dirPath name) \<and> records_entry hash_it"
    by (simp add: set_list_sort)
  have sorted: "sorted_wrt ?le ?its"
  proof (rule sorted_list_sort)
    fix a b :: "CDirContent \<times> (CPath \<Rightarrow> walk_state \<Rightarrow> walk_result)"
    show "\<not> ?cmp a b \<Longrightarrow> ?le b a"
      using wcsicmp_swap [of "LPCWSTR (fst b)" "LPCWSTR (fst a)"] by (simp add: compare_nocase_def)
    show "?cmp a b \<Longrightarrow> ?le a b" by (simp add: compare_nocase_def)
    fix c :: "CDirContent \<times> (CPath \<Rightarrow> walk_state \<Rightarrow> walk_result)"
    show "?le a b \<Longrightarrow> ?le b c \<Longrightarrow> ?le a c" by (rule wcsicmp_le_trans)
  qed
  have rec: "\<forall>(entry, hash_it) \<in> set ?its. records_entry hash_it" using inv' by auto
  from HashDirectory_loop_order [OF rec sorted, of st1] loop
  have vis: "\<forall>v \<in> set vs. canonical_order v \<and> (\<exists>(entry, hash_it) \<in> set ?its. visit_path v = m_szPath entry)"
    and srt: "sorted_wrt (\<lambda>a b. wcsicmp (m_path (visit_path a)) (m_path (visit_path b)) \<le> 0) vs"
    by simp_all
  have nm: "\<exists>name. visit_path v = AppendName dirPath name" if "v \<in> set vs" for v
  proof -
    from vis that obtain entry hash_it where
      "(entry, hash_it) \<in> set ?its" "visit_path v = m_szPath entry" by blast
    moreover from this inv' have "\<exists>name. m_szPath entry = AppendName dirPath name" by blast
    ultimately show ?thesis by simp
  qed
  have paths: "\<forall>v \<in> set vs. m_path (visit_path v) = m_path dirPath @ [0x5C] @ entry_name dirPath v"
  proof
    fix v assume "v \<in> set vs"
    then obtain name where "visit_path v = AppendName dirPath name" using nm by blast
    then show "m_path (visit_path v) = m_path dirPath @ [0x5C] @ entry_name dirPath v"
      by (simp add: entry_name_def AppendName_def)
  qed
  have "sorted_wrt (\<lambda>a b. wcsicmp (entry_name dirPath a) (entry_name dirPath b) \<le> 0) vs"
  proof (rule sorted_wrt_mono_rel [OF _ srt])
    fix a b assume "a \<in> set vs" "b \<in> set vs"
      and le: "wcsicmp (m_path (visit_path a)) (m_path (visit_path b)) \<le> 0"
    then have "m_path (visit_path a) = (m_path dirPath @ [0x5C]) @ entry_name dirPath a"
      "m_path (visit_path b) = (m_path dirPath @ [0x5C]) @ entry_name dirPath b"
      using paths by simp_all
    with le have "wcsicmp ((m_path dirPath @ [0x5C]) @ entry_name dirPath a)
                    ((m_path dirPath @ [0x5C]) @ entry_name dirPath b) \<le> 0"
      by simp
    then show "wcsicmp (entry_name dirPath a) (entry_name dirPath b) \<le> 0"
      by (simp only: wcsicmp_append_same)
  qed
  then have names: "sorted_wrt (\<lambda>a b. wcsicmp a b \<le> 0) (map (entry_name dirPath) vs)"
    by (simp add: sorted_wrt_map)
  have canon: "canonical_order (VDir dirPath vs)"
    using paths names vis by simp
  have body: "snd (snd (HashDirectory_body cfg first_error ffds last_error dirPath st)) = []
      \<or> snd (snd (HashDirectory_body cfg first_error ffds last_error dirPath st)) = [VDir dirPath []]
      \<or> snd (snd (HashDirectory_body cfg first_error ffds last_error dirPath st)) = [VDir dirPath vs]"
    by (simp add: HashDirectory_body_def fold Let_def loop split: option.splits)
  have "canonical_order (VDir dirPath [])" by simp
  with body canon
  show "case snd (snd (HashDirectory_body cfg first_error ffds last_error dirPath st)) of
          [] \<Rightarrow> True
        | v # vs \<Rightarrow> vs = [] \<and> visit_path v = dirPath \<and> canonical_order v"
    by (elim disjE) simp_all
qed

lemma records_entry_HashDirectory: "records_entry (HashDirectory cfg d)"
proof (induction d)
  case (FsDir first_error ffds last_error)
  have "records_entry (snd (snd (snd ffd')))"
    if "ffd' \<in> set (map (\<lambda>(cFileName, reparse, item).
               (cFileName, reparse,
                (case item of
                   Inl f \<Rightarrow> (False, HashFile cfg f)
                 | Inr d \<Rightarrow> (True, HashDirectory cfg d)))) ffds)" for ffd'
  proof -
    from that obtain cFileName reparse item where
      mem: "(cFileName, reparse, item) \<in> set ffds"
      and ffd': "ffd' = (cFileName, reparse,
                (case item of
                   Inl f \<Rightarrow> (False, HashFile cfg f)
                 | Inr d \<Rightarrow> (True, HashDirectory cfg d)))"
      by auto
    show ?thesis
    proof (cases item)
      case (Inl f)
      with ffd' show ?thesis by (simp add: records_entry_HashFile)
    next
      case (Inr d)
      have "records_entry (HashDirectory cfg d)"
        using FsDir.IH [of "(cFileName, reparse, item)" "(reparse, item)" item d] mem Inr
        by simp
      with ffd' Inr show ?thesis by simp
    qed
  qed
  then show ?case
    by (simp add: records_entry_HashDirectory_body)
qed

text \<open>
  Claim C1. In the record of every walk, whatever the tree, the flags and the
  patterns, the entries visited in each directory (directories listed and files
  reached, which are those that passed the reparse-point test and the patterns) come in
  ascending case-insensitive order of their names.
\<close>

theorem HashDirectory_canonical_order:
  "\<forall>v \<in> set (snd (snd (HashDirectory cfg d dirPath st))). canonical_order v"
proof -
  have "records_entry (HashDirectory cfg d)" by (rule records_entry_HashDirectory)
  then have c: "case snd (snd (HashDirectory cfg d dirPath st)) of
          [] \<Rightarrow> True
        | v # vs \<Rightarrow> vs = [] \<and> visit_path v = dirPath \<and> canonical_order v"
    unfolding records_entry_def by blast
  show ?thesis
  proof (cases "snd (snd (HashDirectory cfg d dirPath st))")
    case Nil
    then show ?thesis by simp
  next
    case (Cons v vs)
    with c show ?thesis by simp
  qed
qed

theorem HashDirectory_canonical_order_witness:
  "snd (snd (HashDirectory example_config example_tree (example_path (wstr ''root'')) example_state))
     = [VDir (example_path (wstr ''root''))
          [VFile (AppendName (example_path (wstr ''root'')) (wstr ''a.TXT'')) True,
           VFile (AppendName (example_path (wstr ''root'')) (wstr ''b.txt'')) True,
           VFile (AppendName (example_path (wstr ''root'')) (wstr ''C.bin'')) True,
           VDir (AppendName (example_path (wstr ''root'')) (wstr ''Sub''))
             [VFile (AppendName (AppendName (example_path (wstr ''root'')) (wstr ''Sub'')) (wstr ''Y.txt'')) True,
              VFile (AppendName (AppendName (example_path (wstr ''root'')) (wstr ''Sub'')) (wstr ''z'')) True]]]
   \<and> canonical_order
        (VDir (example_path (wstr ''root''))
          [VFile (AppendName (example_path (wstr ''root'')) (wstr ''a.TXT'')) True,
           VFile (AppendName (example_path (wstr ''root'')) (wstr ''b.txt'')) True,
           VFile (AppendName (example_path (wstr ''root'')) (wstr ''C.bin'')) True,
           VDir (AppendName (example_path (wstr ''root'')) (wstr ''Sub''))
             [VFile (AppendName (AppendName (example_path (wstr ''root'')) (wstr ''Sub'')) (wstr ''Y.txt'')) True,
              VFile (AppendName (AppendName (example_path (wstr ''root'')) (wstr ''Sub'')) (wstr ''z'')) True]])"
proof -
  have v: "snd (snd (HashDirectory example_config example_tree (example_path (wstr ''root'')) example_state))
     = [VDir (example_path (wstr ''root''))
          [VFile (AppendName (example_path (wstr ''root'')) (wstr ''a.TXT'')) True,
           VFile (AppendName (example_path (wstr ''root'')) (wstr ''b.txt'')) True,
           VFile (AppendName (example_path (wstr ''root'')) (wstr ''C.bin'')) True,
           VDir (AppendName (example_path (wstr ''root'')) (wstr ''Sub''))
             [VFile (AppendName (AppendName (example_path (wstr ''root'')) (wstr ''Sub'')) (wstr ''Y.txt'')) True,
              VFile (AppendName (AppendName (example_path (wstr ''root'')) (wstr ''Sub'')) (wstr ''z'')) True]]]"
    by code_simp
  from HashDirectory_canonical_order
         [of example_config example_tree "example_path (wstr ''root'')" example_state]
  show ?thesis unfolding v by (simp only: list.set ball_simps simp_thms)
qed

section \<open>Properties of the filters\<close>




















section \<open>Properties of the main function\<close>

lemma ParseSumFile_None: "ParseSumFile dir None dl0 sk0 norm = (False, dl0, sk0)"
  by (simp add: ParseSumFile_def)



text \<open>A checksum file has one digest length: all entries of its table have it.\<close>

lemma table_of_entries:
  assumes "(path, e) \<in> set (table_of es)"
  shows "\<exists>dg. (path, dg) \<in> set es \<and> e = new_HashResultEntry\<lparr>m_digest := dg\<rparr>"
proof -
  have "distinct (map fst (table_of es))" by (rule distinct_table_of)
  with assms have "map_of (table_of es) path = Some e" by simp
  then obtain dg where "map_of (rev es) path = Some dg" "e = new_HashResultEntry\<lparr>m_digest := dg\<rparr>"
    unfolding map_of_table_of by auto
  moreover from this have "(path, dg) \<in> set (rev es)" by (auto dest: map_of_SomeD)
  ultimately show ?thesis by auto
qed

lemma accepted_entries_length:
  assumes "(path, dg) \<in> set (accepted_entries dir norm lines)"
  shows "length dg = fixed_digest_len dir norm lines"
proof -
  from assms obtain k where "k < length lines" "line_parse dir norm lines k = Some (dg, path)"
    by (auto simp: accepted_entries_def List.map_filter_def split: option.splits)
  then show ?thesis by (rule line_parse_fixed_len)
qed

lemma ParseSumFile_same_length:
  assumes "ParseSumFile dir sumFile [] [] norm = (True, tbl, sk)"
  shows "\<exists>n. \<forall>(path, e) \<in> set tbl. length (m_digest e) = n"
proof (cases sumFile)
  case None
  with assms show ?thesis by (simp add: ParseSumFile_None)
next
  case (Some lines)
  with assms have tbl: "tbl = table_of (accepted_entries dir norm lines)"
    by (simp add: ParseSumFile_result split: if_splits)
  have "length (m_digest e) = fixed_digest_len dir norm lines" if "(path, e) \<in> set tbl" for path e
  proof -
    from that table_of_entries obtain dg where
      "(path, dg) \<in> set (accepted_entries dir norm lines)" "e = new_HashResultEntry\<lparr>m_digest := dg\<rparr>"
      unfolding tbl by blast
    then show ?thesis using accepted_entries_length by simp
  qed
  then show ?thesis by blast
qed














end
